theory Spec2Isabelle
  imports Main
begin

section \<open>Parsed JSON documents and the Python primitives the script uses\<close>

text \<open>
  The script \<^verbatim>\<open>analyze_responses.py\<close> works on the values \<^verbatim>\<open>json.load\<close> returns:
  \<^verbatim>\<open>None\<close>, booleans, integers, floats, strings, lists and dictionaries with string
  keys. A dictionary is modelled by the list of its items in iteration order (its keys
  are pairwise distinct in every parsed document; no result below needs that). A float
  is represented by its \<^verbatim>\<open>repr\<close>, which identifies it. A Python string is the list of
  its characters.
\<close>

datatype json =
    JNull
  | JBool bool
  | JInt int
  | JFloat string
  | JStr string
  | JArr "json list"
  | JObj "(string \<times> json) list"

text \<open>The exceptions that the operations of the script can raise.\<close>

datatype error =
  AttributeError | TypeError | KeyError | IndexError | OSError | JSONDecodeError
  | UnicodeEncodeError

type_synonym 'a result = "error + 'a"

text \<open>Decimal digits of a natural number and of an integer: \<^verbatim>\<open>str(n)\<close>.\<close>

fun str_nat :: "nat \<Rightarrow> string" where
  "str_nat n =
     (if n < 10 then [''0123456789'' ! n]
      else str_nat (n div 10) @ [''0123456789'' ! (n mod 10)])"

declare str_nat.simps [simp del]

definition str_int :: "int \<Rightarrow> string" where
  "str_int i = (if i < 0 then ''-'' @ str_nat (nat (- i)) else str_nat (nat i))"

text \<open>\<^verbatim>\<open>sep.join(xs)\<close>.\<close>

fun join :: "string \<Rightarrow> string list \<Rightarrow> string" where
  "join sep [] = []"
| "join sep [x] = x"
| "join sep (x # y # ys) = x @ sep @ join sep (y # ys)"

text \<open>
  \<^verbatim>\<open>repr(value)\<close>. The \<^verbatim>\<open>repr\<close> of a string (quoting and escaping, which depend on
  Python's table of printable characters) is the parameter \<open>rs\<close> of every function
  that prints; all results hold for every \<open>rs\<close>.
\<close>

fun py_repr :: "(string \<Rightarrow> string) \<Rightarrow> json \<Rightarrow> string" where
  "py_repr rs JNull = ''None''"
| "py_repr rs (JBool b) = (if b then ''True'' else ''False'')"
| "py_repr rs (JInt i) = str_int i"
| "py_repr rs (JFloat r) = r"
| "py_repr rs (JStr s) = rs s"
| "py_repr rs (JArr xs) = ''['' @ join '', '' (map (py_repr rs) xs) @ '']''"
| "py_repr rs (JObj kvs) =
     ''{'' @ join '', '' (map (\<lambda>kv. rs (fst kv) @ '': '' @ py_repr rs (snd kv)) kvs) @ ''}''"

text \<open>\<^verbatim>\<open>isinstance(v, dict)\<close>, \<^verbatim>\<open>isinstance(v, list)\<close> and \<^verbatim>\<open>type(v).__name__\<close>.\<close>

fun is_dict :: "json \<Rightarrow> bool" where
  "is_dict (JObj kvs) = True"
| "is_dict v = False"

fun is_list :: "json \<Rightarrow> bool" where
  "is_list (JArr xs) = True"
| "is_list v = False"

fun type_name :: "json \<Rightarrow> string" where
  "type_name JNull = ''NoneType''"
| "type_name (JBool b) = ''bool''"
| "type_name (JInt i) = ''int''"
| "type_name (JFloat r) = ''float''"
| "type_name (JStr s) = ''str''"
| "type_name (JArr xs) = ''list''"
| "type_name (JObj kvs) = ''dict''"

text \<open>\<^verbatim>\<open>len(v)\<close> raises \<^verbatim>\<open>TypeError\<close> on a value without a length.\<close>

fun py_len :: "json \<Rightarrow> nat result" where
  "py_len (JObj kvs) = Inr (length kvs)"
| "py_len (JArr xs) = Inr (length xs)"
| "py_len (JStr s) = Inr (length s)"
| "py_len v = Inl TypeError"

text \<open>
  \<^verbatim>\<open>v[0]\<close>: the first element of a list or the first character of a string,
  \<^verbatim>\<open>IndexError\<close> when it is empty, \<^verbatim>\<open>KeyError\<close> on a dictionary (its keys are strings,
  never \<^verbatim>\<open>0\<close>), \<^verbatim>\<open>TypeError\<close> on every other value.
\<close>

fun py_first :: "json \<Rightarrow> json result" where
  "py_first (JArr []) = Inl IndexError"
| "py_first (JArr (x # xs)) = Inr x"
| "py_first (JStr []) = Inl IndexError"
| "py_first (JStr (c # cs)) = Inr (JStr [c])"
| "py_first (JObj kvs) = Inl KeyError"
| "py_first v = Inl TypeError"

section \<open>The generic structure analyzer\<close>

text \<open>
  \<^verbatim>\<open>analyze_json_structure(obj, prefix="", depth=0, max_depth=4)\<close>. The dictionary
  \<^verbatim>\<open>structure\<close> it builds is a map from path strings to summaries; an assignment
  \<^verbatim>\<open>structure[path] = s\<close> is a map update and \<^verbatim>\<open>structure.update(d)\<close> is \<open>++\<close>, where the
  entries of \<open>d\<close> win. \<open>analyze_items\<close> is the \<^verbatim>\<open>for key, value in obj.items()\<close> loop,
  \<open>analyze_item\<close> its body.
\<close>

type_synonym summaries = "string \<rightharpoonup> string"

function analyze_json_structure ::
    "(string \<Rightarrow> string) \<Rightarrow> json \<Rightarrow> string \<Rightarrow> int \<Rightarrow> int \<Rightarrow> summaries result"
  and analyze_items ::
    "(string \<Rightarrow> string) \<Rightarrow> (string \<times> json) list \<Rightarrow> string \<Rightarrow> int \<Rightarrow> int \<Rightarrow> summaries
      \<Rightarrow> summaries result"
  and analyze_item ::
    "(string \<Rightarrow> string) \<Rightarrow> string \<Rightarrow> json \<Rightarrow> string \<Rightarrow> int \<Rightarrow> int \<Rightarrow> summaries
      \<Rightarrow> summaries result"
where
  "analyze_json_structure rs obj prefix depth max_depth =
     (if depth > max_depth then Inr Map.empty
      else case obj of
        JObj kvs \<Rightarrow> analyze_items rs kvs prefix depth max_depth Map.empty
      | _ \<Rightarrow> Inr Map.empty)"
| "analyze_items rs [] prefix depth max_depth structure = Inr structure"
| "analyze_items rs ((key, value) # rest) prefix depth max_depth structure =
     (case analyze_item rs key value prefix depth max_depth structure of
        Inl e \<Rightarrow> Inl e
      | Inr structure' \<Rightarrow> analyze_items rs rest prefix depth max_depth structure')"
| "analyze_item rs key value prefix depth max_depth structure =
     (let path = (if prefix \<noteq> [] then prefix @ ''.'' @ key else key) in
      if is_dict value then
        (case py_len value of Inl e \<Rightarrow> Inl e | Inr n \<Rightarrow>
         case analyze_json_structure rs value path (depth + 1) max_depth of
           Inl e \<Rightarrow> Inl e
         | Inr sub \<Rightarrow> Inr (structure(path \<mapsto> ''object ('' @ str_nat n @ '' keys)'') ++ sub))
      else if is_list value then
        (case py_len value of Inl e \<Rightarrow> Inl e | Inr n \<Rightarrow>
         if n > 0 then
           (case py_first value of Inl e \<Rightarrow> Inl e | Inr first \<Rightarrow>
            if is_dict first then
              (case analyze_json_structure rs first (path @ ''[0]'') (depth + 1) max_depth of
                 Inl e \<Rightarrow> Inl e
               | Inr sub \<Rightarrow>
                   Inr (structure(path \<mapsto> ''array ('' @ str_nat n @ '' items)'') ++ sub))
            else Inr (structure(path \<mapsto> ''array ('' @ str_nat n @ '' items)'')))
         else Inr (structure(path \<mapsto> ''array (empty)'')))
      else Inr (structure(path \<mapsto> type_name value @ '': '' @ take 50 (py_repr rs value))))"
  by pat_completeness auto

termination
  apply (relation "measure (\<lambda>x. case x of
      Inl (rs, obj, prefix, depth, md) \<Rightarrow> 2 * size obj + 1
    | Inr (Inl (rs, kvs, prefix, depth, md, s)) \<Rightarrow> 2 * size_list (size_prod (\<lambda>_. 0) size) kvs
    | Inr (Inr (rs, key, v, prefix, depth, md, s)) \<Rightarrow> 2 * size v + 2)")
      apply (auto elim!: py_first.elims)
  done

declare analyze_json_structure.simps [simp del]
declare analyze_item.simps [simp del]

text \<open>The entry a result holds for a path: \<^verbatim>\<open>analyze_json_structure(...).get(path)\<close>.\<close>

definition entry_at :: "summaries result \<Rightarrow> string \<Rightarrow> string option" where
  "entry_at r path = (case r of Inl e \<Rightarrow> None | Inr m \<Rightarrow> m path)"

subsection \<open>Where a value sits in a document\<close>

text \<open>
  The vocabulary needed to say which value an entry describes. A location in a document
  is a list of steps, each the lookup of a key in a dictionary or the selection of
  element 0 of a list; \<open>reaches d steps v\<close> holds when following \<open>steps\<close> from \<open>d\<close> arrives
  at \<open>v\<close>. \<open>path_of\<close> is the path string the analyzer builds along such steps,
  \<open>key_steps\<close> the number of dictionary levels passed, and \<open>summary_of\<close> the text the
  analyzer writes for a value.
\<close>

datatype step = Key string | Elem0

fun reaches :: "json \<Rightarrow> step list \<Rightarrow> json \<Rightarrow> bool" where
  "reaches v [] w = (v = w)"
| "reaches (JObj kvs) (Key k # steps) w =
     list_ex (\<lambda>kv. fst kv = k \<and> reaches (snd kv) steps w) kvs"
| "reaches (JArr (x # xs)) (Elem0 # steps) w = reaches x steps w"
| "reaches v (st # steps) w = False"

fun path_of :: "string \<Rightarrow> step list \<Rightarrow> string" where
  "path_of prefix [] = prefix"
| "path_of prefix (Key k # steps) =
     path_of (if prefix \<noteq> [] then prefix @ ''.'' @ k else k) steps"
| "path_of prefix (Elem0 # steps) = path_of (prefix @ ''[0]'') steps"

fun key_steps :: "step list \<Rightarrow> nat" where
  "key_steps [] = 0"
| "key_steps (Key k # steps) = Suc (key_steps steps)"
| "key_steps (Elem0 # steps) = key_steps steps"

fun summary_of :: "(string \<Rightarrow> string) \<Rightarrow> json \<Rightarrow> string" where
  "summary_of rs (JObj kvs) = ''object ('' @ str_nat (length kvs) @ '' keys)''"
| "summary_of rs (JArr []) = ''array (empty)''"
| "summary_of rs (JArr (x # xs)) = ''array ('' @ str_nat (length (x # xs)) @ '' items)''"
| "summary_of rs v = type_name v @ '': '' @ take 50 (py_repr rs v)"

subsection \<open>The assignments a call performs\<close>

text \<open>
  The traversal assigns an entry to the values stored under a key, reached through
  dictionaries and through element 0 of lists of dictionaries: \<open>keyed steps\<close> holds for
  the step lists that end in a key and select element 0 only between two keys.
\<close>

fun keyed :: "step list \<Rightarrow> bool" where
  "keyed [Key k] = True"
| "keyed (Key k # Key k' # steps) = keyed (Key k' # steps)"
| "keyed (Key k # Elem0 # steps) = keyed steps"
| "keyed steps = False"

text \<open>
  \<open>writes\<close> lists the assignments \<^verbatim>\<open>structure[path] = summary\<close> that a call of
  \<^verbatim>\<open>analyze_json_structure\<close> performs, in the order in which it performs them, those of
  its nested calls included (they reach the caller's dictionary through
  \<^verbatim>\<open>structure.update\<close>). \<open>writes_items\<close> is the loop and \<open>writes_item\<close> its body. The
  mapping returned holds, for each path, the summary of the last assignment to it
  (lemma \<open>analyze_is_last_write\<close> below).
\<close>

function writes ::
    "(string \<Rightarrow> string) \<Rightarrow> json \<Rightarrow> string \<Rightarrow> int \<Rightarrow> int \<Rightarrow> (string \<times> string) list"
  and writes_items ::
    "(string \<Rightarrow> string) \<Rightarrow> (string \<times> json) list \<Rightarrow> string \<Rightarrow> int \<Rightarrow> int
      \<Rightarrow> (string \<times> string) list"
  and writes_item ::
    "(string \<Rightarrow> string) \<Rightarrow> string \<Rightarrow> json \<Rightarrow> string \<Rightarrow> int \<Rightarrow> int \<Rightarrow> (string \<times> string) list"
where
  "writes rs obj prefix depth max_depth =
     (if depth > max_depth then []
      else case obj of
        JObj kvs \<Rightarrow> writes_items rs kvs prefix depth max_depth
      | _ \<Rightarrow> [])"
| "writes_items rs [] prefix depth max_depth = []"
| "writes_items rs ((key, value) # rest) prefix depth max_depth =
     writes_item rs key value prefix depth max_depth
     @ writes_items rs rest prefix depth max_depth"
| "writes_item rs key value prefix depth max_depth =
     (let path = (if prefix \<noteq> [] then prefix @ ''.'' @ key else key) in
      (path, summary_of rs value) #
      (if is_dict value then writes rs value path (depth + 1) max_depth
       else case value of
         JArr (x # xs) \<Rightarrow>
           if is_dict x then writes rs x (path @ ''[0]'') (depth + 1) max_depth else []
       | _ \<Rightarrow> []))"
  by pat_completeness auto

termination
  apply (relation "measure (\<lambda>x. case x of
      Inl (rs, obj, prefix, depth, md) \<Rightarrow> 2 * size obj + 1
    | Inr (Inl (rs, kvs, prefix, depth, md)) \<Rightarrow> 2 * size_list (size_prod (\<lambda>_. 0) size) kvs
    | Inr (Inr (rs, key, v, prefix, depth, md)) \<Rightarrow> 2 * size v + 2)")
      apply auto
  done

declare writes.simps [simp del]
declare writes_item.simps [simp del]

section \<open>Printing and the operations of the summarizers\<close>

text \<open>
  A run of a piece of the script is the list of the strings it passes to \<^verbatim>\<open>print\<close>, in
  order, together with the exception that ended it, if any. What was printed before an
  exception stays printed.
\<close>

type_synonym run = "string list \<times> error option"

definition nothing :: run where
  "nothing = ([], None)"

text \<open>
  \<^verbatim>\<open>print(s)\<close> followed by the statements \<open>k\<close>. Writing a string that the encoding
  of standard output cannot encode raises \<^verbatim>\<open>UnicodeEncodeError\<close> (a lone surrogate from a
  JSON escape under UTF-8, any non-ASCII character under ASCII). Which strings standard
  output can encode is the parameter \<open>enc\<close> of everything that prints.
\<close>

definition print :: "(string \<Rightarrow> bool) \<Rightarrow> string \<Rightarrow> run \<Rightarrow> run" where
  "print enc s k = (if enc s then (s # fst k, snd k) else ([], Some UnicodeEncodeError))"

text \<open>Evaluate an expression that may raise, then run the statements that use its value.\<close>

definition bind :: "'a result \<Rightarrow> ('a \<Rightarrow> run) \<Rightarrow> run" where
  "bind r k = (case r of Inl e \<Rightarrow> ([], Some e) | Inr x \<Rightarrow> k x)"

text \<open>One block of statements after another; the second runs only if the first did not raise.\<close>

definition seq :: "run \<Rightarrow> run \<Rightarrow> run" where
  "seq a b = (case snd a of None \<Rightarrow> (fst a @ fst b, snd b) | Some e \<Rightarrow> a)"

text \<open>
  \<^verbatim>\<open>v.get(key, default)\<close>: only a dictionary has the method. On a dictionary the lookup
  never raises; an absent key gives the default.
\<close>

fun py_get :: "json \<Rightarrow> string \<Rightarrow> json \<Rightarrow> json result" where
  "py_get (JObj kvs) key dflt = Inr (case map_of kvs key of None \<Rightarrow> dflt | Some v \<Rightarrow> v)"
| "py_get v key dflt = Inl AttributeError"

text \<open>\<^verbatim>\<open>list(v.keys())\<close>.\<close>

fun py_keys :: "json \<Rightarrow> json result" where
  "py_keys (JObj kvs) = Inr (JArr (map (\<lambda>kv. JStr (fst kv)) kvs))"
| "py_keys v = Inl AttributeError"

text \<open>
  The slice \<^verbatim>\<open>v[:n]\<close> of a string or a list. Slicing a dictionary raises (\<^verbatim>\<open>TypeError\<close>
  up to Python 3.11, \<^verbatim>\<open>KeyError\<close> from 3.12).
\<close>

fun py_take :: "nat \<Rightarrow> json \<Rightarrow> json result" where
  "py_take n (JStr s) = Inr (JStr (take n s))"
| "py_take n (JArr xs) = Inr (JArr (take n xs))"
| "py_take n v = Inl TypeError"

text \<open>The truth value of a value in \<^verbatim>\<open>if v:\<close>.\<close>

fun truthy :: "json \<Rightarrow> bool" where
  "truthy JNull = False"
| "truthy (JBool b) = b"
| "truthy (JInt i) = (i \<noteq> 0)"
| "truthy (JFloat r) = (r \<noteq> ''0.0'' \<and> r \<noteq> ''-0.0'')"
| "truthy (JStr s) = (s \<noteq> [])"
| "truthy (JArr xs) = (xs \<noteq> [])"
| "truthy (JObj kvs) = (kvs \<noteq> [])"

text \<open>\<^verbatim>\<open>str(v)\<close>, which is what \<^verbatim>\<open>{v}\<close> in an f-string inserts.\<close>

fun py_str :: "(string \<Rightarrow> string) \<Rightarrow> json \<Rightarrow> string" where
  "py_str rs (JStr s) = s"
| "py_str rs v = py_repr rs v"

text \<open>
  The statement forms the summarizers repeat:
  \<^verbatim>\<open>print(f"<label>{obj.get('<key>')}")\<close>, \<^verbatim>\<open>print(f"<label>{len(v)}")\<close> and
  \<^verbatim>\<open>print(f"<label>{list(obj.get('properties', {}).keys())}")\<close>.
\<close>

definition print_field ::
    "(string \<Rightarrow> bool) \<Rightarrow> (string \<Rightarrow> string) \<Rightarrow> string \<Rightarrow> json \<Rightarrow> string \<Rightarrow> run \<Rightarrow> run" where
  "print_field enc rs label obj key k =
     bind (py_get obj key JNull) (\<lambda>v. print enc (label @ py_str rs v) k)"

definition print_len :: "(string \<Rightarrow> bool) \<Rightarrow> string \<Rightarrow> json \<Rightarrow> run \<Rightarrow> run" where
  "print_len enc label v k = bind (py_len v) (\<lambda>n. print enc (label @ str_nat n) k)"

definition print_properties ::
    "(string \<Rightarrow> bool) \<Rightarrow> (string \<Rightarrow> string) \<Rightarrow> string \<Rightarrow> json \<Rightarrow> run \<Rightarrow> run" where
  "print_properties enc rs label obj k =
     bind (py_get obj ''properties'' (JObj [])) (\<lambda>props.
     bind (py_keys props) (\<lambda>keys.
     print enc (label @ py_str rs keys) k))"

section \<open>The five category summarizers\<close>

definition summarize_stop_finder ::
    "(string \<Rightarrow> bool) \<Rightarrow> (string \<Rightarrow> string) \<Rightarrow> json \<Rightarrow> run" where
  "summarize_stop_finder enc rs data =
     print enc (CHR 0x0A # ''=== STOP FINDER RESPONSE ==='') (
     print_field enc rs ''Version: '' data ''version'' (
     bind (py_get data ''locations'' (JArr [])) (\<lambda>locations.
     print_len enc ''Locations count: '' locations (
     if truthy locations then
       bind (py_first locations) (\<lambda>loc.
       print enc (CHR 0x0A # ''First location structure:'') (
       print_field enc rs ''  - id: '' loc ''id'' (
       print_field enc rs ''  - name: '' loc ''name'' (
       print_field enc rs ''  - disassembledName: '' loc ''disassembledName'' (
       print_field enc rs ''  - type: '' loc ''type'' (
       print_field enc rs ''  - coord: '' loc ''coord'' (
       print_field enc rs ''  - modes: '' loc ''modes'' (
       print_field enc rs ''  - matchQuality: '' loc ''matchQuality'' (
       print_field enc rs ''  - isBest: '' loc ''isBest'' (
       bind (py_get loc ''parent'' JNull) (\<lambda>c.
       bind (if truthy c
             then (case py_get loc ''parent'' (JObj []) of
                     Inl e \<Rightarrow> Inl e
                   | Inr parent \<Rightarrow> py_get parent ''name'' JNull)
             else Inr (JStr ''None'')) (\<lambda>parent_name.
       print enc (''  - parent: '' @ py_str rs parent_name) (
       bind (py_get loc ''properties'' (JObj [])) (\<lambda>props.
       if truthy props then
         bind (py_keys props) (\<lambda>keys.
         bind (py_take 10 keys) (\<lambda>keys10.
         print enc (''  - properties keys: '' @ py_str rs keys10) nothing))
       else nothing))))))))))))))
     else nothing))))"

definition summarize_departure_mon ::
    "(string \<Rightarrow> bool) \<Rightarrow> (string \<Rightarrow> string) \<Rightarrow> json \<Rightarrow> run" where
  "summarize_departure_mon enc rs data =
     print enc (CHR 0x0A # ''=== DEPARTURE MONITOR RESPONSE ==='') (
     print_field enc rs ''Version: '' data ''version'' (
     bind (py_get data ''locations'' (JArr [])) (\<lambda>locations.
     print_len enc ''Locations count: '' locations (
     bind (py_get data ''stopEvents'' (JArr [])) (\<lambda>stop_events.
     print_len enc ''Stop events count: '' stop_events (
     if truthy stop_events then
       bind (py_first stop_events) (\<lambda>event.
       print enc (CHR 0x0A # ''First stop event structure:'') (
       print_field enc rs ''  - departureTimePlanned: '' event ''departureTimePlanned'' (
       print_field enc rs ''  - departureTimeEstimated: '' event ''departureTimeEstimated'' (
       print_field enc rs ''  - isRealtimeControlled: '' event ''isRealtimeControlled'' (
       bind (py_get event ''location'' (JObj [])) (\<lambda>loc.
       print_field enc rs ''  - location.name: '' loc ''name'' (
       print_field enc rs ''  - location.type: '' loc ''type'' (
       bind (py_get loc ''properties'' (JObj [])) (\<lambda>props.
       bind (py_keys props) (\<lambda>keys.
       bind (py_take 5 keys) (\<lambda>keys5.
       print enc (''  - location.properties: '' @ py_str rs keys5) (
       bind (py_get event ''transportation'' (JObj [])) (\<lambda>trans.
       print_field enc rs ''  - transportation.number: '' trans ''number'' (
       print_field enc rs ''  - transportation.name: '' trans ''name'' (
       print_field enc rs ''  - transportation.iconId: '' trans ''iconId'' (
       bind (py_get trans ''product'' (JObj [])) (\<lambda>product.
       print_field enc rs ''  - transportation.product.class: '' product ''class'' (
       bind (py_get trans ''destination'' (JObj [])) (\<lambda>destination.
       print_field enc rs ''  - transportation.destination.name: '' destination ''name'' (
       bind (py_get event ''infos'' (JArr [])) (\<lambda>infos.
       print_len enc ''  - infos count: '' infos (
       bind (py_get event ''onwardLocations'' (JArr [])) (\<lambda>onwards.
       if truthy onwards then
         print_len enc ''  - onwardLocations count: '' onwards (
         bind (py_first onwards) (\<lambda>ow.
         print_field enc rs ''    - first onwards: '' ow ''name'' (
         print_properties enc rs ''    - properties: '' ow nothing)))
       else nothing)))))))))))))))))))))))
     else nothing))))))"

definition summarize_trip ::
    "(string \<Rightarrow> bool) \<Rightarrow> (string \<Rightarrow> string) \<Rightarrow> json \<Rightarrow> run" where
  "summarize_trip enc rs data =
     print enc (CHR 0x0A # ''=== TRIP RESPONSE ==='') (
     print_field enc rs ''Version: '' data ''version'' (
     bind (py_get data ''journeys'' (JArr [])) (\<lambda>journeys.
     print_len enc ''Journeys count: '' journeys (
     if truthy journeys then
       bind (py_first journeys) (\<lambda>journey.
       print enc (CHR 0x0A # ''First journey structure:'') (
       print_field enc rs ''  - interchanges: '' journey ''interchanges'' (
       print_field enc rs ''  - isAdditional: '' journey ''isAdditional'' (
       bind (py_get journey ''legs'' (JArr [])) (\<lambda>legs.
       print_len enc ''  - legs count: '' legs (
       bind (py_get journey ''fare'' (JObj [])) (\<lambda>fare.
       bind (py_get fare ''tickets'' (JArr [])) (\<lambda>tickets.
       print_len enc ''  - fare.tickets count: '' tickets (
       seq
        (if truthy tickets then
           bind (py_first tickets) (\<lambda>t.
           bind (py_get t ''name'' JNull) (\<lambda>name.
           bind (py_get t ''person'' JNull) (\<lambda>person.
           print enc (''    - first ticket: '' @ py_str rs name @ '' - person: '' @ py_str rs person) (
           print_field enc rs ''    - priceBrutto: '' t ''priceBrutto'' (
           bind (py_get t ''properties'' (JObj [])) (\<lambda>props.
           bind (py_keys props) (\<lambda>keys.
           bind (py_take 8 keys) (\<lambda>keys8.
           print enc (''    - properties keys: '' @ py_str rs keys8) nothing))))))))
         else nothing)
        (if truthy legs then
           bind (py_first legs) (\<lambda>leg.
           print enc (CHR 0x0A # ''  First leg structure:'') (
           bind (py_get leg ''duration'' JNull) (\<lambda>duration.
           print enc (''    - duration: '' @ py_str rs duration @ '' seconds'') (
           bind (py_get leg ''distance'' JNull) (\<lambda>distance.
           print enc (''    - distance: '' @ py_str rs distance @ '' meters'') (
           print_field enc rs ''    - isRealtimeControlled: '' leg ''isRealtimeControlled'' (
           bind (py_get leg ''origin'' (JObj [])) (\<lambda>origin.
           print_field enc rs ''    - origin.name: '' origin ''name'' (
           print_field enc rs ''    - origin.departureTimePlanned: '' origin ''departureTimePlanned'' (
           print_field enc rs ''    - origin.departureTimeEstimated: '' origin
             ''departureTimeEstimated'' (
           print_properties enc rs ''    - origin.properties keys: '' origin (
           bind (py_get leg ''destination'' (JObj [])) (\<lambda>dest.
           print_field enc rs ''    - destination.name: '' dest ''name'' (
           bind (py_get leg ''transportation'' (JObj [])) (\<lambda>trans.
           print_field enc rs ''    - transportation.number: '' trans ''number'' (
           bind (py_get trans ''product'' (JObj [])) (\<lambda>product.
           print_field enc rs ''    - transportation.product.class: '' product ''class'' (
           bind (py_get leg ''stopSequence'' (JArr [])) (\<lambda>stop_seq.
           print_len enc ''    - stopSequence count: '' stop_seq (
           bind (py_get leg ''coords'' (JArr [])) (\<lambda>coords.
           print_len enc ''    - coords count: '' coords (
           bind (py_get leg ''infos'' (JArr [])) (\<lambda>infos.
           print_len enc ''    - infos (alerts) count: '' infos (
           seq
            (if truthy infos then
               bind (py_first infos) (\<lambda>info.
               bind (py_get info ''title'' (JStr ''N/A'')) (\<lambda>title.
               bind (py_get info ''subtitle'' title) (\<lambda>subtitle.
               bind (py_take 60 subtitle) (\<lambda>subtitle60.
               print enc (''      - first alert: '' @ py_str rs subtitle60) nothing))))
             else nothing)
            (bind (py_get leg ''hints'' (JArr [])) (\<lambda>hints.
             print_len enc ''    - hints count: '' hints (
             print_properties enc rs ''    - properties keys: '' leg nothing)))))))))))))))))))))))))))
         else nothing))))))))))
     else nothing))))"

definition summarize_add_info ::
    "(string \<Rightarrow> bool) \<Rightarrow> (string \<Rightarrow> string) \<Rightarrow> json \<Rightarrow> run" where
  "summarize_add_info enc rs data =
     print enc (CHR 0x0A # ''=== ADD_INFO (SERVICE ALERTS) RESPONSE ==='') (
     print_field enc rs ''Version: '' data ''version'' (
     print_field enc rs ''Timestamp: '' data ''timestamp'' (
     bind (py_get data ''infos'' (JObj [])) (\<lambda>infos.
     bind (py_get infos ''current'' (JArr [])) (\<lambda>current.
     print_len enc ''Current alerts count: '' current (
     bind (py_get infos ''affected'' (JObj [])) (\<lambda>affected.
     bind (py_get affected ''stops'' (JArr [])) (\<lambda>stops.
     print_len enc ''Total affected stops: '' stops (
     bind (py_get affected ''lines'' (JArr [])) (\<lambda>lines.
     print_len enc ''Total affected lines: '' lines (
     if truthy current then
       bind (py_first current) (\<lambda>alert.
       print enc (CHR 0x0A # ''First alert structure:'') (
       print_field enc rs ''  - id: '' alert ''id'' (
       print_field enc rs ''  - version: '' alert ''version'' (
       print_field enc rs ''  - type: '' alert ''type'' (
       print_field enc rs ''  - priority: '' alert ''priority'' (
       bind (py_get alert ''subtitle'' (JStr ''N/A'')) (\<lambda>subtitle.
       bind (py_take 60 subtitle) (\<lambda>subtitle60.
       print enc (''  - subtitle: '' @ py_str rs subtitle60) (
       bind (py_get alert ''content'' (JStr [])) (\<lambda>content.
       print_len enc ''  - content length: '' content (
       bind (py_get alert ''url'' (JStr ''N/A'')) (\<lambda>url.
       bind (py_take 50 url) (\<lambda>url50.
       print enc (''  - url: '' @ py_str rs url50) (
       bind (py_get alert ''timestamps'' (JObj [])) (\<lambda>ts.
       print_field enc rs ''  - timestamps.creation: '' ts ''creation'' (
       print_field enc rs ''  - timestamps.lastModification: '' ts ''lastModification'' (
       bind (py_get ts ''validity'' (JArr [])) (\<lambda>validity.
       print_len enc ''  - timestamps.validity count: '' validity (
       bind (py_get alert ''affected'' (JObj [])) (\<lambda>affected.
       bind (py_get affected ''lines'' (JArr [])) (\<lambda>lines.
       print_len enc ''  - affected.lines count: '' lines (
       bind (py_get affected ''stops'' (JArr [])) (\<lambda>stops.
       print_len enc ''  - affected.stops count: '' stops (
       print_properties enc rs ''  - properties keys: '' alert nothing))))))))))))))))))))))))
     else nothing)))))))))))"

definition summarize_coord ::
    "(string \<Rightarrow> bool) \<Rightarrow> (string \<Rightarrow> string) \<Rightarrow> json \<Rightarrow> run" where
  "summarize_coord enc rs data =
     print enc (CHR 0x0A # ''=== COORD (NEARBY) RESPONSE ==='') (
     print_field enc rs ''Version: '' data ''version'' (
     bind (py_get data ''locations'' (JArr [])) (\<lambda>locations.
     print_len enc ''Locations count: '' locations (
     if truthy locations then
       bind (py_first locations) (\<lambda>loc.
       print enc (CHR 0x0A # ''First location structure:'') (
       print_field enc rs ''  - id: '' loc ''id'' (
       print_field enc rs ''  - name: '' loc ''name'' (
       print_field enc rs ''  - type: '' loc ''type'' (
       print_field enc rs ''  - coord: '' loc ''coord'' (
       bind (py_get loc ''properties'' (JObj [])) (\<lambda>props.
       print_field enc rs ''  - properties.distance: '' props ''distance'' (
       bind (py_keys props) (\<lambda>keys.
       bind (py_take 10 keys) (\<lambda>keys10.
       print enc (''  - properties keys: '' @ py_str rs keys10) nothing))))))))))
     else nothing))))"

section \<open>The driver\<close>

text \<open>\<^verbatim>\<open>sub in s\<close> on strings: \<open>sub\<close> occurs in \<open>s\<close> as a contiguous substring.\<close>

fun starts_with :: "string \<Rightarrow> string \<Rightarrow> bool" where
  "starts_with [] s = True"
| "starts_with (c # cs) [] = False"
| "starts_with (c # cs) (d # ds) = (c = d \<and> starts_with cs ds)"

fun is_substring :: "string \<Rightarrow> string \<Rightarrow> bool" where
  "is_substring sub [] = (sub = [])"
| "is_substring sub (c # cs) = (starts_with sub (c # cs) \<or> is_substring sub cs)"

text \<open>The fixed mapping \<^verbatim>\<open>files\<close> of logical names to file names, in its iteration order.\<close>

definition files :: "(string \<times> string) list" where
  "files =
    [(''stop_finder'', ''example_stop_finder_1_epp.json''),
     (''departure_mon_1'', ''example_departure_mon_1_central.json''),
     (''departure_mon_2'', ''example_departure_mon_2_circular_quay.json''),
     (''trip_1'', ''example_trip_1.json''),
     (''trip_2'', ''example_trip_2.json''),
     (''add_info_1'', ''example_add_info_1_all_modes.json''),
     (''add_info_2'', ''example_add_info_2_only_trains.json''),
     (''coord_gis'', ''example_coord_1_gis_point.json''),
     (''coord_bus'', ''example_coord_2_bus_point.json''),
     (''coord_poi'', ''example_coord_3_poi_point.json'')]"

text \<open>
  The directory of the script, as the driver sees it: a file name is absent
  (\<^verbatim>\<open>os.path.exists\<close> is false) or names a file, of which the driver uses what
  \<^verbatim>\<open>json.load\<close> of the opened file gives (a document, or the exception of \<^verbatim>\<open>open\<close> or of
  the parser) and what \<^verbatim>\<open>os.path.getsize\<close> gives.
\<close>

record fixture =
  load :: "json result"
  getsize :: "nat result"

type_synonym directory = "string \<Rightarrow> fixture option"

text \<open>
  \<^verbatim>\<open>f"{size / 1024:.1f}"\<close>. For a size below \<open>2 ^ 53\<close> the quotient is exact in a double,
  and the format rounds it to one decimal, a tie to the even digit.
\<close>

definition format_kb :: "nat \<Rightarrow> string" where
  "format_kb n =
     (let t = (10 * n) div 1024;
          r = (10 * n) mod 1024;
          tenths = (if r > 512 \<or> (r = 512 \<and> odd t) then t + 1 else t)
      in str_nat (tenths div 10) @ ''.'' @ str_nat (tenths mod 10))"

text \<open>
  Python looks the name of a called function up in the namespace of the module when the
  call runs. \<open>module\<close> is that namespace: the functions the script defines.
  \<open>this_module\<close> is the script as written.
\<close>

record module =
  m_analyze_json_structure ::
    "(string \<Rightarrow> string) \<Rightarrow> json \<Rightarrow> string \<Rightarrow> int \<Rightarrow> int \<Rightarrow> summaries result"
  m_summarize_stop_finder :: "(string \<Rightarrow> bool) \<Rightarrow> (string \<Rightarrow> string) \<Rightarrow> json \<Rightarrow> run"
  m_summarize_departure_mon :: "(string \<Rightarrow> bool) \<Rightarrow> (string \<Rightarrow> string) \<Rightarrow> json \<Rightarrow> run"
  m_summarize_trip :: "(string \<Rightarrow> bool) \<Rightarrow> (string \<Rightarrow> string) \<Rightarrow> json \<Rightarrow> run"
  m_summarize_add_info :: "(string \<Rightarrow> bool) \<Rightarrow> (string \<Rightarrow> string) \<Rightarrow> json \<Rightarrow> run"
  m_summarize_coord :: "(string \<Rightarrow> bool) \<Rightarrow> (string \<Rightarrow> string) \<Rightarrow> json \<Rightarrow> run"

definition this_module :: module where
  "this_module =
     \<lparr>m_analyze_json_structure = analyze_json_structure,
      m_summarize_stop_finder = summarize_stop_finder,
      m_summarize_departure_mon = summarize_departure_mon,
      m_summarize_trip = summarize_trip,
      m_summarize_add_info = summarize_add_info,
      m_summarize_coord = summarize_coord\<rparr>"

text \<open>The \<^verbatim>\<open>if\<close>/\<^verbatim>\<open>elif\<close> chain at the end of the loop body of \<^verbatim>\<open>main\<close>.\<close>

definition dispatch ::
    "module \<Rightarrow> (string \<Rightarrow> bool) \<Rightarrow> (string \<Rightarrow> string) \<Rightarrow> string \<Rightarrow> json \<Rightarrow> run" where
  "dispatch g enc rs name data =
     (if is_substring ''stop_finder'' name then m_summarize_stop_finder g enc rs data
      else if is_substring ''departure_mon'' name then m_summarize_departure_mon g enc rs data
      else if is_substring ''trip'' name then m_summarize_trip g enc rs data
      else if is_substring ''add_info'' name then m_summarize_add_info g enc rs data
      else if is_substring ''coord'' name then m_summarize_coord g enc rs data
      else nothing)"

text \<open>The loop \<^verbatim>\<open>for name, filename in files.items()\<close> of \<^verbatim>\<open>main\<close>, and \<^verbatim>\<open>main\<close>.\<close>

fun main_loop ::
    "module \<Rightarrow> (string \<Rightarrow> bool) \<Rightarrow> (string \<Rightarrow> string) \<Rightarrow> directory \<Rightarrow> (string \<times> string) list
      \<Rightarrow> run" where
  "main_loop g enc rs dir [] = nothing"
| "main_loop g enc rs dir ((name, filename) # rest) =
     (case dir filename of
        None \<Rightarrow> print enc (''File not found: '' @ filename) (main_loop g enc rs dir rest)
      | Some f \<Rightarrow>
          print enc (CHR 0x0A # replicate 60 (CHR ''='')) (
          print enc (''ANALYZING: '' @ filename) (
          print enc (replicate 60 (CHR ''='')) (
          bind (load f) (\<lambda>data.
          bind (getsize f) (\<lambda>n.
          print enc (''File size: '' @ format_kb n @ '' KB'') (
          seq (dispatch g enc rs name data) (main_loop g enc rs dir rest))))))))"

definition main_in ::
    "module \<Rightarrow> (string \<Rightarrow> bool) \<Rightarrow> (string \<Rightarrow> string) \<Rightarrow> directory \<Rightarrow> run" where
  "main_in g enc rs dir = main_loop g enc rs dir files"

definition main :: "(string \<Rightarrow> bool) \<Rightarrow> (string \<Rightarrow> string) \<Rightarrow> directory \<Rightarrow> run" where
  "main enc rs dir = main_in this_module enc rs dir"

subsection \<open>The dispatch rule in the words of the specification\<close>

text \<open>
  The categories in the order in which they are tried, the first of them that occurs in
  a logical name, and the summarizer of a category.
\<close>

definition categories :: "string list" where
  "categories = [''stop_finder'', ''departure_mon'', ''trip'', ''add_info'', ''coord'']"

definition first_category :: "string \<Rightarrow> string option" where
  "first_category name = find (\<lambda>c. is_substring c name) categories"

definition summarizer_of ::
    "module \<Rightarrow> string \<Rightarrow> (string \<Rightarrow> bool) \<Rightarrow> (string \<Rightarrow> string) \<Rightarrow> json \<Rightarrow> run" where
  "summarizer_of g c =
     (if c = ''stop_finder'' then m_summarize_stop_finder g
      else if c = ''departure_mon'' then m_summarize_departure_mon g
      else if c = ''trip'' then m_summarize_trip g
      else if c = ''add_info'' then m_summarize_add_info g
      else m_summarize_coord g)"

section \<open>The shape of the documents a summarizer expects\<close>








text \<open>A run that ended without an exception.\<close>

definition completes :: "run \<Rightarrow> bool" where
  "completes r = (snd r = None)"


section \<open>The reports in the words of the specification\<close>



fun first_of :: "json \<Rightarrow> json" where
  "first_of (JArr (x # xs)) = x"
| "first_of (JStr (c # cs)) = JStr [c]"
| "first_of v = JNull"








section \<open>Instances used in the examples\<close>

text \<open>
  The \<^verbatim>\<open>repr\<close> of a string of printable ASCII characters that holds no quote and no
  backslash is the string between single quotes. The examples below use it for \<open>rs\<close>.
\<close>

definition quoted :: "string \<Rightarrow> string" where
  "quoted s = CHR 0x27 # s @ [CHR 0x27]"

text \<open>
  Two encodings of standard output: UTF-8, which encodes every string of the model
  (its characters include no surrogate), and ASCII, which encodes the strings of
  characters below 128.
\<close>

definition utf8 :: "string \<Rightarrow> bool" where
  "utf8 s = True"


text \<open>
  Three directories: one without any of the ten files, one that holds only the first
  file, which is not valid JSON, and one that holds only the last file, an empty JSON
  object of 768 bytes.
\<close>

definition no_files :: directory where
  "no_files filename = None"

definition first_file_malformed :: directory where
  "first_file_malformed filename =
     (if filename = ''example_stop_finder_1_epp.json''
      then Some \<lparr>load = Inl JSONDecodeError, getsize = Inr 10\<rparr>
      else None)"

definition only_last_file :: directory where
  "only_last_file filename =
     (if filename = ''example_coord_3_poi_point.json''
      then Some \<lparr>load = Inr (JObj []), getsize = Inr 768\<rparr>
      else None)"

section \<open>Properties of the structure analyzer\<close>

subsection \<open>The analyzer always returns\<close>

lemma analyze_defined:
  "\<exists>m. analyze_json_structure rs obj prefix depth max_depth = Inr m"
  "\<exists>m. analyze_items rs kvs prefix depth max_depth s = Inr m"
  "\<exists>m. analyze_item rs key v prefix depth max_depth s = Inr m"
proof (induction rs obj prefix depth max_depth and rs kvs prefix depth max_depth s
    and rs key v prefix depth max_depth s
    rule: analyze_json_structure_analyze_items_analyze_item.induct)
  case (1 rs obj prefix depth max_depth)
  then show ?case
    by (cases obj) (auto simp: analyze_json_structure.simps)
next
  case (2 rs prefix depth max_depth s)
  then show ?case by simp
next
  case (3 rs key v rest prefix depth max_depth s)
  then show ?case by auto
next
  case (4 rs key v prefix depth max_depth s)
  show ?case
  proof (cases v)
    case (JObj kvs)
    with 4(1)[OF refl, of "length kvs"] show ?thesis
      by (auto simp: analyze_item.simps)
  next
    case (JArr xs)
    show ?thesis
    proof (cases xs)
      case Nil
      with JArr show ?thesis by (simp add: analyze_item.simps)
    next
      case (Cons x xs')
      with JArr 4(2)[OF refl, of "length xs" x] show ?thesis
        by (auto simp: analyze_item.simps)
    qed
  qed (simp_all add: analyze_item.simps)
qed

text \<open>
  Claim C2. For every document, prefix, depth and depth limit,
  \<^verbatim>\<open>analyze_json_structure\<close> returns a mapping: none of the operations that can raise
  (\<^verbatim>\<open>len\<close>, \<^verbatim>\<open>value[0]\<close>) is reached on a value on which it raises, whatever keys are
  missing and whatever the arrays hold.
\<close>

theorem analyze_json_structure_never_raises:
  "\<exists>m. analyze_json_structure rs d prefix depth max_depth = Inr m"
  by (rule analyze_defined(1))

text \<open>
  Claim C10. On a document whose top-level value is not a dictionary (a list, a string,
  a number, a boolean or \<^verbatim>\<open>None\<close>) the analyzer returns the empty mapping; a top-level
  list is not traversed, not even its first element.
\<close>

theorem analyze_non_dict_empty:
  "\<not> is_dict d \<Longrightarrow> analyze_json_structure rs d prefix depth max_depth = Inr Map.empty"
  by (cases d) (simp_all add: analyze_json_structure.simps)

theorem analyze_non_dict_empty_witness:
  "\<not> is_dict (JArr [JObj [(''a'', JInt 1)]])
   \<and> analyze_json_structure (\<lambda>s. s) (JArr [JObj [(''a'', JInt 1)]]) [] 0 4 = Inr Map.empty"
  using analyze_non_dict_empty [of "JArr [JObj [(''a'', JInt 1)]]" "\<lambda>s. s" "[]" 0 4]
  by simp

subsection \<open>What one item of a dictionary contributes\<close>

lemma upd_add_assoc: "s(p \<mapsto> x) ++ sub = s ++ (Map.empty(p \<mapsto> x) ++ sub)"
  by (rule ext) (simp add: map_add_def split: option.splits)

lemma analyze_item_acc:
  assumes "analyze_item rs key v prefix depth max_depth Map.empty = Inr m0"
  shows "analyze_item rs key v prefix depth max_depth s = Inr (s ++ m0)"
proof -
  define path where "path = (if prefix \<noteq> [] then prefix @ ''.'' @ key else key)"
  show ?thesis
  proof (cases v)
    case (JObj kvs)
    obtain sub where "analyze_json_structure rs v path (depth + 1) max_depth = Inr sub"
      using analyze_defined(1) by blast
    with assms JObj show ?thesis
      unfolding analyze_item.simps[of rs key v] path_def[symmetric] Let_def
      by (auto simp: upd_add_assoc[of s, symmetric])
  next
    case (JArr xs)
    show ?thesis
    proof (cases xs)
      case Nil
      with assms JArr show ?thesis
        unfolding analyze_item.simps[of rs key v] path_def[symmetric] Let_def
        by auto
    next
      case (Cons x xs')
      obtain sub where
        "analyze_json_structure rs x (path @ ''[0]'') (depth + 1) max_depth = Inr sub"
        using analyze_defined(1) by blast
      with assms JArr Cons show ?thesis
        unfolding analyze_item.simps[of rs key v] path_def[symmetric] Let_def
        by (auto simp: upd_add_assoc[of s, symmetric])
    qed
  qed (use assms in \<open>auto simp: analyze_item.simps Let_def\<close>)
qed

lemma analyze_items_acc:
  "analyze_items rs kvs prefix depth max_depth Map.empty = Inr m0 \<Longrightarrow>
   analyze_items rs kvs prefix depth max_depth s = Inr (s ++ m0)"
proof (induction kvs arbitrary: s m0)
  case Nil
  then show ?case by auto
next
  case (Cons kv kvs)
  obtain key v where kv: "kv = (key, v)" by (cases kv)
  obtain mi where mi: "analyze_item rs key v prefix depth max_depth Map.empty = Inr mi"
    using analyze_defined(3) by blast
  obtain mr where mr: "analyze_items rs kvs prefix depth max_depth Map.empty = Inr mr"
    using analyze_defined(2) by blast
  from Cons.prems kv mi have "analyze_items rs kvs prefix depth max_depth mi = Inr m0"
    by simp
  with Cons.IH[OF mr, of mi] have m0: "m0 = mi ++ mr" by simp
  have "analyze_items rs (kv # kvs) prefix depth max_depth s
      = analyze_items rs kvs prefix depth max_depth (s ++ mi)"
    using kv analyze_item_acc[OF mi, of s] by simp
  also have "\<dots> = Inr ((s ++ mi) ++ mr)"
    by (rule Cons.IH[OF mr])
  finally show ?case by (simp add: m0)
qed

lemma analyze_items_append:
  "analyze_items rs xs prefix depth max_depth s = Inr m \<Longrightarrow>
   analyze_items rs (xs @ ys) prefix depth max_depth s
     = analyze_items rs ys prefix depth max_depth m"
proof (induction xs arbitrary: s)
  case Nil
  then show ?case by simp
next
  case (Cons kv xs)
  obtain key v where kv: "kv = (key, v)" by (cases kv)
  with Cons show ?case by (auto split: sum.splits)
qed

text \<open>
  The mapping returned for a dictionary is the merge of what the items before a key
  give, what the key gives, and what the items after it give; later entries win.
\<close>

lemma analyze_dict_split:
  assumes d: "depth \<le> max_depth"
    and b: "analyze_json_structure rs (JObj before) prefix depth max_depth = Inr mb"
    and i: "analyze_item rs key v prefix depth max_depth Map.empty = Inr mi"
    and a: "analyze_json_structure rs (JObj after) prefix depth max_depth = Inr ma"
  shows "analyze_json_structure rs (JObj (before @ (key, v) # after)) prefix depth max_depth
      = Inr (mb ++ mi ++ ma)"
proof -
  from d b have b': "analyze_items rs before prefix depth max_depth Map.empty = Inr mb"
    by (simp add: analyze_json_structure.simps)
  from d a have a': "analyze_items rs after prefix depth max_depth Map.empty = Inr ma"
    by (simp add: analyze_json_structure.simps)
  have "analyze_items rs (before @ (key, v) # after) prefix depth max_depth Map.empty
      = analyze_items rs ((key, v) # after) prefix depth max_depth mb"
    by (rule analyze_items_append[OF b'])
  also have "\<dots> = analyze_items rs after prefix depth max_depth (mb ++ mi)"
    using analyze_item_acc[OF i, of mb] by simp
  also have "\<dots> = Inr ((mb ++ mi) ++ ma)"
    by (rule analyze_items_acc[OF a'])
  finally show ?thesis using d by (simp add: analyze_json_structure.simps)
qed

text \<open>Under a non-empty prefix every path written is longer than the prefix.\<close>

lemma analyze_paths_longer:
  "prefix \<noteq> [] \<Longrightarrow> analyze_json_structure rs obj prefix depth max_depth = Inr m \<Longrightarrow>
     p \<in> dom m \<Longrightarrow> length prefix < length p"
  "prefix \<noteq> [] \<Longrightarrow> analyze_items rs kvs prefix depth max_depth s = Inr m \<Longrightarrow>
     p \<in> dom m \<Longrightarrow> p \<in> dom s \<or> length prefix < length p"
  "prefix \<noteq> [] \<Longrightarrow> analyze_item rs key v prefix depth max_depth s = Inr m \<Longrightarrow>
     p \<in> dom m \<Longrightarrow> p \<in> dom s \<or> length prefix < length p"
proof (induction rs obj prefix depth max_depth and rs kvs prefix depth max_depth s
    and rs key v prefix depth max_depth s
    arbitrary: m p and m p and m p
    rule: analyze_json_structure_analyze_items_analyze_item.induct)
  case (1 rs obj prefix depth max_depth)
  show ?case
  proof (cases "depth > max_depth")
    case True
    with 1 show ?thesis by (auto simp: analyze_json_structure.simps)
  next
    case False
    show ?thesis
    proof (cases obj)
      case (JObj kvs)
      with False 1(3) have "analyze_items rs kvs prefix depth max_depth Map.empty = Inr m"
        by (simp add: analyze_json_structure.simps)
      from 1(1)[OF False JObj 1(2) this 1(4)] show ?thesis by simp
    qed (use False 1 in \<open>auto simp: analyze_json_structure.simps\<close>)
  qed
next
  case (2 rs prefix depth max_depth s)
  then show ?case by auto
next
  case (3 rs key v rest prefix depth max_depth s)
  obtain mi where mi: "analyze_item rs key v prefix depth max_depth s = Inr mi"
    using analyze_defined(3) by blast
  with 3(4) have r: "analyze_items rs rest prefix depth max_depth mi = Inr m" by simp
  from 3(2)[OF mi 3(3) r 3(5)] have "p \<in> dom mi \<or> length prefix < length p" .
  with 3(1)[OF 3(3) mi, of p] show ?case by blast
next
  case (4 rs key v prefix depth max_depth s)
  define path where "path = (if prefix \<noteq> [] then prefix @ ''.'' @ key else key)"
  have pl: "length prefix < length path" "path \<noteq> []"
    using 4(3) by (simp_all add: path_def)
  have fin: ?case if m: "dom m \<subseteq> insert path (dom s \<union> dom sub)"
    and sub: "\<And>q. q \<in> dom sub \<Longrightarrow> length path < length q" for sub :: summaries
  proof -
    from m 4(5) have "p = path \<or> p \<in> dom s \<or> p \<in> dom sub" by blast
    moreover have "length prefix < length p" if "p = path"
      using that pl(1) by simp
    moreover have "length prefix < length p" if "p \<in> dom sub"
      using sub[OF that] pl(1) by simp
    ultimately show ?thesis by blast
  qed
  show ?case
  proof (cases v)
    case (JObj kvs)
    obtain sub where sub: "analyze_json_structure rs v path (depth + 1) max_depth = Inr sub"
      using analyze_defined(1) by blast
    with 4(4) JObj have m: "dom m \<subseteq> insert path (dom s \<union> dom sub)"
      unfolding analyze_item.simps[of rs key v] path_def[symmetric] Let_def by auto
    have "length path < length q" if "q \<in> dom sub" for q
      using 4(1)[of path "length kvs" sub q] path_def pl(2) sub that JObj by simp
    with m show ?thesis by (rule fin)
  next
    case (JArr xs)
    show ?thesis
    proof (cases xs)
      case Nil
      with 4(4) JArr have "dom m \<subseteq> insert path (dom s \<union> dom (Map.empty :: summaries))"
        unfolding analyze_item.simps[of rs key v] path_def[symmetric] Let_def by auto
      then show ?thesis by (rule fin) simp
    next
      case (Cons x xs')
      obtain sub where sub:
        "analyze_json_structure rs x (path @ ''[0]'') (depth + 1) max_depth = Inr sub"
        using analyze_defined(1) by blast
      with 4(4) JArr Cons have m: "dom m \<subseteq> insert path (dom s \<union> dom sub)"
        unfolding analyze_item.simps[of rs key v] path_def[symmetric] Let_def
        by (auto split: if_splits)
      have "length path < length q" if "q \<in> dom sub" for q
      proof (cases "is_dict x")
        case True
        with 4(2)[of path "length xs" x sub q] path_def sub that JArr Cons
        show ?thesis by simp
      next
        case False
        with sub that show ?thesis
          by (cases x) (auto simp: analyze_json_structure.simps split: if_splits)
      qed
      with m show ?thesis by (rule fin)
    qed
  next
    case JNull
    with 4(4) have "dom m \<subseteq> insert path (dom s \<union> dom (Map.empty :: summaries))"
      unfolding analyze_item.simps[of rs key v] path_def[symmetric] Let_def by auto
    then show ?thesis by (rule fin) simp
  next
    case (JBool b)
    with 4(4) have "dom m \<subseteq> insert path (dom s \<union> dom (Map.empty :: summaries))"
      unfolding analyze_item.simps[of rs key v] path_def[symmetric] Let_def by auto
    then show ?thesis by (rule fin) simp
  next
    case (JInt i)
    with 4(4) have "dom m \<subseteq> insert path (dom s \<union> dom (Map.empty :: summaries))"
      unfolding analyze_item.simps[of rs key v] path_def[symmetric] Let_def by auto
    then show ?thesis by (rule fin) simp
  next
    case (JFloat r)
    with 4(4) have "dom m \<subseteq> insert path (dom s \<union> dom (Map.empty :: summaries))"
      unfolding analyze_item.simps[of rs key v] path_def[symmetric] Let_def by auto
    then show ?thesis by (rule fin) simp
  next
    case (JStr t)
    with 4(4) have "dom m \<subseteq> insert path (dom s \<union> dom (Map.empty :: summaries))"
      unfolding analyze_item.simps[of rs key v] path_def[symmetric] Let_def by auto
    then show ?thesis by (rule fin) simp
  qed
qed

subsection \<open>The entries written for scalars, dictionaries and arrays\<close>

text \<open>
  Claim C5. Within the depth limit, the entry written for a scalar value (neither a
  dictionary nor a list) stored under a key is the name of its type, a colon and the
  first 50 characters of its \<^verbatim>\<open>repr\<close>: the mapping returned for the dictionary is what
  the items before the key give, updated at the key's path with that entry, merged with
  what the items after the key give.
\<close>

theorem scalar_entry_truncated:
  assumes "depth \<le> max_depth" and "\<not> is_dict v" and "\<not> is_list v"
    and "analyze_json_structure rs (JObj before) prefix depth max_depth = Inr mb"
    and "analyze_json_structure rs (JObj after) prefix depth max_depth = Inr ma"
  shows "analyze_json_structure rs (JObj (before @ (key, v) # after)) prefix depth max_depth
      = Inr (mb((if prefix \<noteq> [] then prefix @ ''.'' @ key else key)
                  \<mapsto> type_name v @ '': '' @ take 50 (py_repr rs v)) ++ ma)"
proof -
  have "analyze_item rs key v prefix depth max_depth Map.empty
      = Inr (Map.empty((if prefix \<noteq> [] then prefix @ ''.'' @ key else key)
                  \<mapsto> type_name v @ '': '' @ take 50 (py_repr rs v)))"
    using assms(2,3) by (simp add: analyze_item.simps)
  from analyze_dict_split[OF assms(1) assms(4) this assms(5)] show ?thesis
    by simp
qed

theorem scalar_entry_truncated_witness:
  "(0::int) \<le> 4 \<and> \<not> is_dict (JStr (replicate 60 (CHR ''x''))) \<and> \<not> is_list (JStr (replicate 60 (CHR ''x'')))
   \<and> analyze_json_structure quoted (JObj [(''k'', JStr (replicate 60 (CHR ''x'')))]) [] 0 4
      = Inr (Map.empty(''k'' \<mapsto> ''str: '' @ CHR 0x27 # replicate 49 (CHR ''x'')))"
  using scalar_entry_truncated [of 0 4 "JStr (replicate 60 (CHR ''x''))" quoted "[]" "[]"
      Map.empty "[]" Map.empty "''k''"]
  by (simp add: analyze_json_structure.simps quoted_def)

subsection \<open>The returned mapping holds the last assignment to each path\<close>

lemma analyze_is_last_write:
  "analyze_json_structure rs obj prefix depth max_depth
     = Inr (map_of (rev (writes rs obj prefix depth max_depth)))"
  "analyze_items rs kvs prefix depth max_depth s
     = Inr (s ++ map_of (rev (writes_items rs kvs prefix depth max_depth)))"
  "analyze_item rs key v prefix depth max_depth s
     = Inr (s ++ map_of (rev (writes_item rs key v prefix depth max_depth)))"
proof (induction rs obj prefix depth max_depth and rs kvs prefix depth max_depth s
    and rs key v prefix depth max_depth s
    rule: analyze_json_structure_analyze_items_analyze_item.induct)
  case (1 rs obj prefix depth max_depth)
  then show ?case
    by (cases obj) (auto simp: analyze_json_structure.simps writes.simps)
next
  case (2 rs prefix depth max_depth s)
  then show ?case by simp
next
  case (3 rs key v rest prefix depth max_depth s)
  then show ?case by simp
next
  case (4 rs key v prefix depth max_depth s)
  define path where "path = (if prefix \<noteq> [] then prefix @ ''.'' @ key else key)"
  show ?case
  proof (cases v)
    case (JObj kvs)
    with 4(1)[OF path_def, of "length kvs"] show ?thesis
      unfolding analyze_item.simps[of rs key v] writes_item.simps[of rs key v]
        path_def[symmetric] Let_def
      by (simp add: upd_add_assoc[of s, symmetric])
  next
    case (JArr xs)
    show ?thesis
    proof (cases xs)
      case Nil
      with JArr show ?thesis
        unfolding analyze_item.simps[of rs key v] writes_item.simps[of rs key v]
          path_def[symmetric] Let_def
        by (auto simp: map_add_def fun_eq_iff)
    next
      case (Cons x xs')
      show ?thesis
      proof (cases "is_dict x")
        case True
        with Cons JArr 4(2)[OF path_def, of "length xs" x] show ?thesis
          unfolding analyze_item.simps[of rs key v] writes_item.simps[of rs key v]
            path_def[symmetric] Let_def
          by (simp add: upd_add_assoc[of s, symmetric])
      next
        case False
        with Cons JArr show ?thesis
          unfolding analyze_item.simps[of rs key v] writes_item.simps[of rs key v]
            path_def[symmetric] Let_def
          by (auto simp: map_add_def fun_eq_iff)
      qed
    qed
  qed (auto simp: analyze_item.simps writes_item.simps map_add_def fun_eq_iff)
qed

lemma last_write_wins:
  assumes "ws = ws1 @ (p, t) # ws2" and "p \<notin> fst ` set ws2"
  shows "map_of (rev ws) p = Some t"
proof -
  from assms(2) have "map_of (rev ws2) p = None"
    by (simp add: map_of_eq_None_iff)
  then show ?thesis by (simp add: assms(1) map_add_def)
qed

lemma writes_items_append:
  "writes_items rs (xs @ ys) prefix depth max_depth
     = writes_items rs xs prefix depth max_depth @ writes_items rs ys prefix depth max_depth"
  by (induction xs) auto

lemma writes_paths_longer:
  assumes "prefix \<noteq> []" and "p \<in> fst ` set (writes rs obj prefix depth max_depth)"
  shows "length prefix < length p"
proof -
  from assms(2) have "p \<in> dom (map_of (rev (writes rs obj prefix depth max_depth)))"
    by (simp add: dom_map_of_conv_image_fst)
  with analyze_paths_longer(1)[OF assms(1) analyze_is_last_write(1)] show ?thesis .
qed

text \<open>
  A value that the traversal reaches under a key, within the depth limit, is handed to
  the loop body: the assignments of the call contain those of the body for that value.
\<close>

lemma visited_item_written:
  assumes "reaches d steps v" and "keyed steps"
    and "int (key_steps steps) + depth \<le> max_depth + 1"
  shows "\<exists>ws1 ws2 pre key.
      writes rs d prefix depth max_depth
        = ws1 @ writes_item rs key v pre (depth + int (key_steps steps) - 1) max_depth @ ws2
      \<and> (if pre \<noteq> [] then pre @ ''.'' @ key else key) = path_of prefix steps"
  using assms
proof (induction steps arbitrary: d prefix depth rule: keyed.induct)
  case (1 k)
  from "1.prems"(1) obtain kvs where d: "d = JObj kvs" and mem: "(k, v) \<in> set kvs"
    by (cases d) (auto simp: list_ex_iff)
  from mem obtain before after where kvs: "kvs = before @ (k, v) # after"
    by (auto dest: split_list)
  from "1.prems"(3) have "\<not> depth > max_depth" by simp
  then have "writes rs d prefix depth max_depth
      = writes_items rs before prefix depth max_depth
        @ writes_item rs k v prefix (depth + int (key_steps [Key k]) - 1) max_depth
        @ writes_items rs after prefix depth max_depth"
    by (simp add: d kvs writes.simps writes_items_append)
  moreover have "(if prefix \<noteq> [] then prefix @ ''.'' @ k else k) = path_of prefix [Key k]"
    by simp
  ultimately show ?case by blast
next
  case (2 k k' steps)
  define path where "path = (if prefix \<noteq> [] then prefix @ ''.'' @ k else k)"
  from "2.prems"(1) obtain kvs v0 where d: "d = JObj kvs" and mem: "(k, v0) \<in> set kvs"
    and r: "reaches v0 (Key k' # steps) v"
    by (cases d) (auto simp: list_ex_iff)
  from r have dict: "is_dict v0" by (cases v0) auto
  from mem obtain before after where kvs: "kvs = before @ (k, v0) # after"
    by (auto dest: split_list)
  from "2.prems"(3) have nd: "\<not> depth > max_depth"
    and lim: "int (key_steps (Key k' # steps)) + (depth + 1) \<le> max_depth + 1"
    by simp_all
  from "2.IH"[OF r _ lim, of path] "2.prems"(2)
  obtain ws1 ws2 pre key where
    sub: "writes rs v0 path (depth + 1) max_depth
      = ws1 @ writes_item rs key v pre
          (depth + 1 + int (key_steps (Key k' # steps)) - 1) max_depth @ ws2"
    and p: "(if pre \<noteq> [] then pre @ ''.'' @ key else key) = path_of path (Key k' # steps)"
    by auto
  have "writes rs d prefix depth max_depth
      = (writes_items rs before prefix depth max_depth @ (path, summary_of rs v0) # ws1)
        @ writes_item rs key v pre
            (depth + int (key_steps (Key k # Key k' # steps)) - 1) max_depth
        @ (ws2 @ writes_items rs after prefix depth max_depth)"
    using nd dict sub
    by (simp add: d kvs writes.simps[of rs "JObj _"] writes_items_append
        writes_item.simps[of rs k v0] path_def[symmetric] algebra_simps)
  moreover have "(if pre \<noteq> [] then pre @ ''.'' @ key else key)
      = path_of prefix (Key k # Key k' # steps)"
    using p by (simp add: path_def)
  ultimately show ?case by blast
next
  case (3 k steps)
  define path where "path = (if prefix \<noteq> [] then prefix @ ''.'' @ k else k)"
  from "3.prems"(1) obtain kvs v0 where d: "d = JObj kvs" and mem: "(k, v0) \<in> set kvs"
    and r0: "reaches v0 (Elem0 # steps) v"
    by (cases d) (auto simp: list_ex_iff)
  from r0 obtain x xs where v0: "v0 = JArr (x # xs)" and r: "reaches x steps v"
    by (cases v0 rule: first_of.cases) auto
  from "3.prems"(2) have ks: "keyed steps" by simp
  then obtain k' steps' where steps: "steps = Key k' # steps'"
    by (cases steps rule: keyed.cases) auto
  with r have dict: "is_dict x" by (cases x) auto
  from mem obtain before after where kvs: "kvs = before @ (k, v0) # after"
    by (auto dest: split_list)
  from "3.prems"(3) have nd: "\<not> depth > max_depth"
    and lim: "int (key_steps steps) + (depth + 1) \<le> max_depth + 1"
    by simp_all
  from "3.IH"[OF r ks lim, of "path @ ''[0]''"]
  obtain ws1 ws2 pre key where
    sub: "writes rs x (path @ ''[0]'') (depth + 1) max_depth
      = ws1 @ writes_item rs key v pre (depth + 1 + int (key_steps steps) - 1) max_depth @ ws2"
    and p: "(if pre \<noteq> [] then pre @ ''.'' @ key else key) = path_of (path @ ''[0]'') steps"
    by auto
  have "writes rs d prefix depth max_depth
      = (writes_items rs before prefix depth max_depth @ (path, summary_of rs v0) # ws1)
        @ writes_item rs key v pre (depth + int (key_steps (Key k # Elem0 # steps)) - 1) max_depth
        @ (ws2 @ writes_items rs after prefix depth max_depth)"
    using nd dict sub
    by (simp add: d kvs v0 writes.simps[of rs "JObj _"] writes_items_append
        writes_item.simps[of rs k "JArr _"] path_def[symmetric] algebra_simps)
  moreover have "(if pre \<noteq> [] then pre @ ''.'' @ key else key)
      = path_of prefix (Key k # Elem0 # steps)"
    using p by (simp add: path_def)
  ultimately show ?case by blast
qed simp_all

text \<open>
  Claim C3, as amended. For every document and every dictionary with \<open>n\<close> keys that is
  stored under a key which the traversal reaches within the depth limit (through
  dictionaries and through element 0 of lists), the analyzer assigns
  \<^verbatim>\<open>"object (n keys)"\<close> to the path of that value, and the returned mapping holds this
  entry at the path provided that no later assignment writes the same path string.
  (Path strings are not unique: a key may itself contain a dot, and the later write
  wins. A dictionary that is an element of a list gets no entry of its own.)
\<close>

theorem dict_entry_in_document:
  assumes "reaches d steps (JObj sub)" and "keyed steps"
    and "int (key_steps steps) \<le> max_depth + 1 - depth"
  shows "\<exists>ws1 ws2.
      writes rs d prefix depth max_depth
        = ws1 @ (path_of prefix steps, ''object ('' @ str_nat (length sub) @ '' keys)'') # ws2
      \<and> (path_of prefix steps \<notin> fst ` set ws2 \<longrightarrow>
           entry_at (analyze_json_structure rs d prefix depth max_depth) (path_of prefix steps)
             = Some (''object ('' @ str_nat (length sub) @ '' keys)''))"
proof -
  from assms(3) have "int (key_steps steps) + depth \<le> max_depth + 1" by simp
  from visited_item_written[OF assms(1,2) this, of rs prefix]
  obtain ws1 ws2 pre key where
    w: "writes rs d prefix depth max_depth
      = ws1 @ writes_item rs key (JObj sub) pre (depth + int (key_steps steps) - 1) max_depth
        @ ws2"
    and p: "(if pre \<noteq> [] then pre @ ''.'' @ key else key) = path_of prefix steps"
    by blast
  define nested where "nested =
    writes rs (JObj sub) (path_of prefix steps) (depth + int (key_steps steps) - 1 + 1) max_depth"
  have eq: "writes rs d prefix depth max_depth
      = ws1 @ (path_of prefix steps, ''object ('' @ str_nat (length sub) @ '' keys)'')
          # (nested @ ws2)"
    unfolding w writes_item.simps[of rs key "JObj sub"] p Let_def nested_def by simp
  have "entry_at (analyze_json_structure rs d prefix depth max_depth) (path_of prefix steps)
      = Some (''object ('' @ str_nat (length sub) @ '' keys)'')"
    if "path_of prefix steps \<notin> fst ` set (nested @ ws2)"
    using last_write_wins[OF eq that] by (simp add: analyze_is_last_write(1) entry_at_def)
  with eq show ?thesis by blast
qed

theorem dict_entry_in_document_witness:
  "\<exists>ws1 ws2.
      writes quoted (JObj [(''x'', JObj [(''a'', JObj [])]), (''y'', JInt 2)]) [] 0 4
        = ws1 @ (''x.a'', ''object (0 keys)'') # ws2
      \<and> (''x.a'' \<notin> fst ` set ws2 \<longrightarrow>
           entry_at (analyze_json_structure quoted
              (JObj [(''x'', JObj [(''a'', JObj [])]), (''y'', JInt 2)]) [] 0 4) ''x.a''
             = Some ''object (0 keys)'')"
  using dict_entry_in_document [of "JObj [(''x'', JObj [(''a'', JObj [])]), (''y'', JInt 2)]"
      "[Key ''x'', Key ''a'']" "[]" 4 0 quoted "[]"]
  by (simp add: str_nat.simps)

text \<open>
  The claim as first stated fails in two ways. The dictionary with no key at path
  \<^verbatim>\<open>a.b\<close> of \<^verbatim>\<open>{"a": {"b": {}}, "a.b": 1}\<close> is overwritten by the entry of the key
  \<^verbatim>\<open>a.b\<close>; and the dictionary at path \<^verbatim>\<open>a[0]\<close> of \<^verbatim>\<open>{"a": [{"b": 1}]}\<close>, whose key gets
  the entry \<^verbatim>\<open>a[0].b\<close>, has no entry itself.
\<close>

theorem dict_entry_counterexample:
  "reaches (JObj [(''a'', JObj [(''b'', JObj [])]), (''a.b'', JInt 1)])
      [Key ''a'', Key ''b''] (JObj [])
   \<and> path_of [] [Key ''a'', Key ''b''] = ''a.b''
   \<and> entry_at (analyze_json_structure quoted
         (JObj [(''a'', JObj [(''b'', JObj [])]), (''a.b'', JInt 1)]) [] 0 4) ''a.b''
       = Some ''int: 1''
   \<and> ''int: 1'' \<noteq> ''object ('' @ str_nat (length ([] :: (string \<times> json) list)) @ '' keys)''
   \<and> reaches (JObj [(''a'', JArr [JObj [(''b'', JInt 1)]])]) [Key ''a'', Elem0]
         (JObj [(''b'', JInt 1)])
   \<and> path_of [] [Key ''a'', Elem0] = ''a[0]''
   \<and> entry_at (analyze_json_structure quoted
         (JObj [(''a'', JArr [JObj [(''b'', JInt 1)]])]) [] 0 4) ''a[0]'' = None
   \<and> entry_at (analyze_json_structure quoted
         (JObj [(''a'', JArr [JObj [(''b'', JInt 1)]])]) [] 0 4) ''a[0].b'' = Some ''int: 1''"
  by (simp add: analyze_json_structure.simps analyze_item.simps str_nat.simps entry_at_def
      str_int_def)

text \<open>
  Claim C4, as amended. For every document and every list stored under a key which the
  traversal reaches within the depth limit, the analyzer assigns to the path of that
  list \<^verbatim>\<open>"array (empty)"\<close> when the list is empty and \<^verbatim>\<open>"array (k items)"\<close> when it has
  \<open>k > 0\<close> items; the assignments that follow at once are those of the analysis of
  element 0 under the path followed by \<^verbatim>\<open>[0]\<close> when that element is a dictionary, and
  none for the list when it is not. The returned mapping holds the array entry at the
  path provided that no later assignment writes the same path string. (A list that is
  an element of a list gets no entry.)
\<close>

theorem array_entry_in_document:
  assumes "reaches d steps (JArr xs)" and "keyed steps"
    and "int (key_steps steps) \<le> max_depth + 1 - depth"
  shows "\<exists>ws1 ws2.
      writes rs d prefix depth max_depth
        = ws1
          @ (path_of prefix steps,
             if xs = [] then ''array (empty)''
             else ''array ('' @ str_nat (length xs) @ '' items)'')
          # (case xs of
               [] \<Rightarrow> []
             | x # rest \<Rightarrow>
                 if is_dict x
                 then writes rs x (path_of prefix steps @ ''[0]'')
                        (depth + int (key_steps steps)) max_depth
                 else [])
          @ ws2
      \<and> (path_of prefix steps \<notin> fst ` set ws2 \<longrightarrow>
           entry_at (analyze_json_structure rs d prefix depth max_depth) (path_of prefix steps)
             = Some (if xs = [] then ''array (empty)''
                     else ''array ('' @ str_nat (length xs) @ '' items)''))"
proof -
  define p where "p = path_of prefix steps"
  define t where "t = (if xs = [] then ''array (empty)''
    else ''array ('' @ str_nat (length xs) @ '' items)'')"
  define nested where "nested = (case xs of
      [] \<Rightarrow> []
    | x # rest \<Rightarrow>
        if is_dict x then writes rs x (p @ ''[0]'') (depth + int (key_steps steps)) max_depth
        else [])"
  from assms(3) have "int (key_steps steps) + depth \<le> max_depth + 1" by simp
  from visited_item_written[OF assms(1,2) this, of rs prefix]
  obtain ws1 ws2 pre key where
    w: "writes rs d prefix depth max_depth
      = ws1 @ writes_item rs key (JArr xs) pre (depth + int (key_steps steps) - 1) max_depth
        @ ws2"
    and pre: "(if pre \<noteq> [] then pre @ ''.'' @ key else key) = p"
    unfolding p_def by blast
  have item: "writes_item rs key (JArr xs) pre (depth + int (key_steps steps) - 1) max_depth
      = (p, t) # nested"
    unfolding writes_item.simps[of rs key "JArr xs"] pre Let_def t_def nested_def
    by (cases xs) simp_all
  have eq: "writes rs d prefix depth max_depth = ws1 @ (p, t) # (nested @ ws2)"
    unfolding w item by simp
  have longer: "length p < length q" if "q \<in> fst ` set nested" for q
  proof (cases xs)
    case Nil
    with that show ?thesis by (simp add: nested_def)
  next
    case (Cons x rest)
    with that have "q \<in> fst ` set (writes rs x (p @ ''[0]'') (depth + int (key_steps steps))
        max_depth)"
      by (auto simp: nested_def split: if_splits)
    from writes_paths_longer[OF _ this] show ?thesis by simp
  qed
  have "entry_at (analyze_json_structure rs d prefix depth max_depth) p = Some t"
    if "p \<notin> fst ` set ws2"
  proof -
    from longer have "p \<notin> fst ` set nested" by auto
    with that have "p \<notin> fst ` set (nested @ ws2)" by auto
    from last_write_wins[OF eq this] show ?thesis
      by (simp add: analyze_is_last_write(1) entry_at_def)
  qed
  with eq have "writes rs d prefix depth max_depth = ws1 @ (p, t) # nested @ ws2
      \<and> (p \<notin> fst ` set ws2 \<longrightarrow>
           entry_at (analyze_json_structure rs d prefix depth max_depth) p = Some t)"
    by simp
  then show ?thesis unfolding p_def t_def nested_def by blast
qed

theorem array_entry_in_document_witness:
  "\<exists>ws1 ws2.
      writes quoted (JObj [(''x'', JObj [(''a'', JArr [JObj [(''b'', JInt 7)], JNull])])]) [] 0 4
        = ws1 @ (''x.a'', ''array (2 items)'') # [(''x.a[0].b'', ''int: 7'')] @ ws2
      \<and> (''x.a'' \<notin> fst ` set ws2 \<longrightarrow>
           entry_at (analyze_json_structure quoted
              (JObj [(''x'', JObj [(''a'', JArr [JObj [(''b'', JInt 7)], JNull])])]) [] 0 4)
              ''x.a''
             = Some ''array (2 items)'')"
  using array_entry_in_document
      [of "JObj [(''x'', JObj [(''a'', JArr [JObj [(''b'', JInt 7)], JNull])])]"
        "[Key ''x'', Key ''a'']" "[JObj [(''b'', JInt 7)], JNull]" 4 0 quoted "[]"]
  by (simp add: str_nat.simps writes.simps writes_item.simps str_int_def)

text \<open>
  The claim as first stated fails in two ways. The empty list at path \<^verbatim>\<open>a.b\<close> of
  \<^verbatim>\<open>{"a": {"b": []}, "a.b": 1}\<close> is overwritten by the entry of the key \<^verbatim>\<open>a.b\<close>; and the
  list at path \<^verbatim>\<open>a[0]\<close> of \<^verbatim>\<open>{"a": [[1]]}\<close> has no entry.
\<close>

theorem array_entry_counterexample:
  "reaches (JObj [(''a'', JObj [(''b'', JArr [])]), (''a.b'', JInt 1)])
      [Key ''a'', Key ''b''] (JArr [])
   \<and> path_of [] [Key ''a'', Key ''b''] = ''a.b''
   \<and> entry_at (analyze_json_structure quoted
         (JObj [(''a'', JObj [(''b'', JArr [])]), (''a.b'', JInt 1)]) [] 0 4) ''a.b''
       = Some ''int: 1''
   \<and> ''int: 1'' \<noteq> ''array (empty)''
   \<and> reaches (JObj [(''a'', JArr [JArr [JInt 1]])]) [Key ''a'', Elem0] (JArr [JInt 1])
   \<and> path_of [] [Key ''a'', Elem0] = ''a[0]''
   \<and> entry_at (analyze_json_structure quoted
         (JObj [(''a'', JArr [JArr [JInt 1]])]) [] 0 4) ''a[0]'' = None"
  by (simp add: analyze_json_structure.simps analyze_item.simps str_nat.simps entry_at_def
      str_int_def)

subsection \<open>Every entry describes a value within the depth limit\<close>

lemma reaches_later_item:
  "reaches (JObj rest) steps w \<Longrightarrow> steps \<noteq> [] \<Longrightarrow> reaches (JObj (kv # rest)) steps w"
  by (cases steps rule: key_steps.cases) auto

lemma analyze_entries:
  "analyze_json_structure rs obj prefix depth max_depth = Inr m \<Longrightarrow> m p = Some t \<Longrightarrow>
     \<exists>steps v. reaches obj steps v \<and> path_of prefix steps = p \<and> t = summary_of rs v
       \<and> 0 < key_steps steps \<and> int (key_steps steps) + depth \<le> max_depth + 1"
  "depth \<le> max_depth \<Longrightarrow> analyze_items rs kvs prefix depth max_depth s = Inr m \<Longrightarrow>
     m p = Some t \<Longrightarrow>
     s p = Some t \<or>
     (\<exists>steps v. reaches (JObj kvs) steps v \<and> path_of prefix steps = p \<and> t = summary_of rs v
       \<and> 0 < key_steps steps \<and> int (key_steps steps) + depth \<le> max_depth + 1)"
  "depth \<le> max_depth \<Longrightarrow> analyze_item rs key v0 prefix depth max_depth s = Inr m \<Longrightarrow>
     m p = Some t \<Longrightarrow>
     s p = Some t \<or>
     (\<exists>steps v. reaches v0 steps v \<and> path_of prefix (Key key # steps) = p
       \<and> t = summary_of rs v \<and> int (key_steps steps) + depth \<le> max_depth)"
proof (induction rs obj prefix depth max_depth and rs kvs prefix depth max_depth s
    and rs key v0 prefix depth max_depth s
    arbitrary: m p t and m p t and m p t
    rule: analyze_json_structure_analyze_items_analyze_item.induct)
  case (1 rs obj prefix depth max_depth)
  show ?case
  proof (cases "depth > max_depth")
    case True
    with 1(2,3) show ?thesis by (auto simp: analyze_json_structure.simps)
  next
    case False
    show ?thesis
    proof (cases obj)
      case (JObj kvs)
      with False 1(2) have "analyze_items rs kvs prefix depth max_depth Map.empty = Inr m"
        by (simp add: analyze_json_structure.simps)
      from 1(1)[OF False JObj _ this 1(3)] False JObj show ?thesis by simp
    qed (use False 1(2,3) in \<open>auto simp: analyze_json_structure.simps\<close>)
  qed
next
  case (2 rs prefix depth max_depth s)
  then show ?case by simp
next
  case (3 rs key v0 rest prefix depth max_depth s)
  obtain mi where mi: "analyze_item rs key v0 prefix depth max_depth s = Inr mi"
    using analyze_defined(3) by blast
  with 3(4) have r: "analyze_items rs rest prefix depth max_depth mi = Inr m" by simp
  from 3(2)[OF mi 3(3) r 3(5)] consider
    (item) "mi p = Some t"
    | (later) steps v where "reaches (JObj rest) steps v" "path_of prefix steps = p"
      "t = summary_of rs v" "0 < key_steps steps"
      "int (key_steps steps) + depth \<le> max_depth + 1"
    by blast
  then show ?case
  proof cases
    case item
    from 3(1)[OF 3(3) mi item] consider
      (before) "s p = Some t"
      | (here) steps v where "reaches v0 steps v" "path_of prefix (Key key # steps) = p"
        "t = summary_of rs v" "int (key_steps steps) + depth \<le> max_depth"
      by blast
    then show ?thesis
    proof cases
      case before
      then show ?thesis by simp
    next
      case here
      then have "reaches (JObj ((key, v0) # rest)) (Key key # steps) v
          \<and> path_of prefix (Key key # steps) = p \<and> t = summary_of rs v
          \<and> 0 < key_steps (Key key # steps)
          \<and> int (key_steps (Key key # steps)) + depth \<le> max_depth + 1"
        by simp
      then show ?thesis by blast
    qed
  next
    case later
    from later(4) have "steps \<noteq> []" by auto
    from reaches_later_item[OF later(1) this] later show ?thesis by blast
  qed
next
  case (4 rs key v0 prefix depth max_depth s)
  define path where "path = (if prefix \<noteq> [] then prefix @ ''.'' @ key else key)"
  have p_of: "path_of prefix (Key key # steps) = path_of path steps" for steps
    by (simp add: path_def)
  have p_of0: "path_of prefix (Key key # Elem0 # steps) = path_of (path @ ''[0]'') steps"
    for steps
    by (simp add: path_def)
  have own: ?case if "p = path" "t = summary_of rs v0"
  proof -
    from that 4(3) have "reaches v0 [] v0 \<and> path_of prefix (Key key # []) = p
        \<and> t = summary_of rs v0 \<and> int (key_steps []) + depth \<le> max_depth"
      by (simp add: path_def)
    then show ?thesis by blast
  qed
  show ?case
  proof (cases v0)
    case (JObj kvs)
    obtain sub where sub: "analyze_json_structure rs v0 path (depth + 1) max_depth = Inr sub"
      using analyze_defined(1) by blast
    with 4(4) JObj have m: "m = s(path \<mapsto> summary_of rs v0) ++ sub"
      unfolding analyze_item.simps[of rs key v0] path_def[symmetric] Let_def by auto
    show ?thesis
    proof (cases "sub p")
      case None
      with m 4(5) have "s p = Some t \<or> (p = path \<and> t = summary_of rs v0)"
        by (auto simp: map_add_def split: if_splits)
      with own show ?thesis by blast
    next
      case (Some t')
      with m 4(5) have "sub p = Some t" by (simp add: map_add_def)
      from 4(1)[of path "length kvs" sub p t] path_def JObj sub this
      obtain steps v where "reaches v0 steps v" "path_of path steps = p" "t = summary_of rs v"
        "int (key_steps steps) + (depth + 1) \<le> max_depth + 1"
        by auto
      then have "reaches v0 steps v \<and> path_of prefix (Key key # steps) = p
          \<and> t = summary_of rs v \<and> int (key_steps steps) + depth \<le> max_depth"
        by (simp add: p_of del: path_of.simps)
      then show ?thesis by blast
    qed
  next
    case (JArr xs)
    show ?thesis
    proof (cases xs)
      case Nil
      with 4(4) JArr have "m = s(path \<mapsto> summary_of rs v0)"
        unfolding analyze_item.simps[of rs key v0] path_def[symmetric] Let_def by auto
      with 4(5) have "s p = Some t \<or> (p = path \<and> t = summary_of rs v0)"
        by (auto split: if_splits)
      with own show ?thesis by blast
    next
      case (Cons x xs')
      obtain sub where sub:
        "analyze_json_structure rs x (path @ ''[0]'') (depth + 1) max_depth = Inr sub"
        using analyze_defined(1) by blast
      show ?thesis
      proof (cases "is_dict x")
        case False
        with 4(4) JArr Cons have "m = s(path \<mapsto> summary_of rs v0)"
          unfolding analyze_item.simps[of rs key v0] path_def[symmetric] Let_def by auto
        with 4(5) have "s p = Some t \<or> (p = path \<and> t = summary_of rs v0)"
          by (auto split: if_splits)
        with own show ?thesis by blast
      next
        case True
        with 4(4) JArr Cons sub have m: "m = s(path \<mapsto> summary_of rs v0) ++ sub"
          unfolding analyze_item.simps[of rs key v0] path_def[symmetric] Let_def by auto
        show ?thesis
        proof (cases "sub p")
          case None
          with m 4(5) have "s p = Some t \<or> (p = path \<and> t = summary_of rs v0)"
            by (auto simp: map_add_def split: if_splits)
          with own show ?thesis by blast
        next
          case (Some t')
          with m 4(5) have "sub p = Some t" by (simp add: map_add_def)
          from 4(2)[of path "length xs" x sub p t] path_def JArr Cons True sub this
          obtain steps v where "reaches x steps v" "path_of (path @ ''[0]'') steps = p"
            "t = summary_of rs v" "int (key_steps steps) + (depth + 1) \<le> max_depth + 1"
            by auto
          then have "reaches v0 (Elem0 # steps) v
              \<and> path_of prefix (Key key # Elem0 # steps) = p
              \<and> t = summary_of rs v \<and> int (key_steps (Elem0 # steps)) + depth \<le> max_depth"
            using JArr Cons by (simp add: p_of0 del: path_of.simps)
          then show ?thesis by blast
        qed
      qed
    qed
  next
    case JNull
    with 4(4) have "m = s(path \<mapsto> summary_of rs v0)"
      unfolding analyze_item.simps[of rs key v0] path_def[symmetric] Let_def by auto
    with 4(5) have "s p = Some t \<or> (p = path \<and> t = summary_of rs v0)"
      by (auto split: if_splits)
    with own show ?thesis by blast
  next
    case (JBool b)
    with 4(4) have "m = s(path \<mapsto> summary_of rs v0)"
      unfolding analyze_item.simps[of rs key v0] path_def[symmetric] Let_def by auto
    with 4(5) have "s p = Some t \<or> (p = path \<and> t = summary_of rs v0)"
      by (auto split: if_splits)
    with own show ?thesis by blast
  next
    case (JInt i)
    with 4(4) have "m = s(path \<mapsto> summary_of rs v0)"
      unfolding analyze_item.simps[of rs key v0] path_def[symmetric] Let_def by auto
    with 4(5) have "s p = Some t \<or> (p = path \<and> t = summary_of rs v0)"
      by (auto split: if_splits)
    with own show ?thesis by blast
  next
    case (JFloat r)
    with 4(4) have "m = s(path \<mapsto> summary_of rs v0)"
      unfolding analyze_item.simps[of rs key v0] path_def[symmetric] Let_def by auto
    with 4(5) have "s p = Some t \<or> (p = path \<and> t = summary_of rs v0)"
      by (auto split: if_splits)
    with own show ?thesis by blast
  next
    case (JStr u)
    with 4(4) have "m = s(path \<mapsto> summary_of rs v0)"
      unfolding analyze_item.simps[of rs key v0] path_def[symmetric] Let_def by auto
    with 4(5) have "s p = Some t \<or> (p = path \<and> t = summary_of rs v0)"
      by (auto split: if_splits)
    with own show ?thesis by blast
  qed
qed

text \<open>
  Claim C1. Every entry of the mapping that \<^verbatim>\<open>analyze_json_structure\<close> returns describes
  a value of the document that lies within the depth limit: the entry's path is the
  path of a value reached from the document through at least one and at most
  \<open>max_depth + 1 - depth\<close> dictionary levels (the calls that write entries run at depths
  \<open>depth\<close> to \<open>max_depth\<close>; with the defaults, at most five keys), and the entry is the
  summary of that value. Nothing nested deeper has an entry, however deep the document.
\<close>

theorem entries_within_depth_limit:
  assumes "analyze_json_structure rs d prefix depth max_depth = Inr m" and "m p = Some t"
  shows "\<exists>steps v. reaches d steps v \<and> path_of prefix steps = p \<and> t = summary_of rs v
      \<and> 0 < key_steps steps \<and> int (key_steps steps) \<le> max_depth + 1 - depth"
  using analyze_entries(1)[OF assms] by (simp add: algebra_simps)

theorem entries_within_depth_limit_witness:
  "analyze_json_structure quoted (JObj [(''a'', JObj [(''b'', JObj [(''c'', JInt 1)])])]) [] 0 1
     = Inr (Map.empty(''a'' \<mapsto> ''object (1 keys)'', ''a.b'' \<mapsto> ''object (1 keys)''))
   \<and> (\<exists>steps v. reaches (JObj [(''a'', JObj [(''b'', JObj [(''c'', JInt 1)])])]) steps v
         \<and> path_of [] steps = ''a.b'' \<and> ''object (1 keys)'' = summary_of quoted v
         \<and> 0 < key_steps steps \<and> int (key_steps steps) \<le> 1 + 1 - 0)"
proof -
  have eq: "analyze_json_structure quoted
      (JObj [(''a'', JObj [(''b'', JObj [(''c'', JInt 1)])])]) [] 0 1
     = Inr (Map.empty(''a'' \<mapsto> ''object (1 keys)'', ''a.b'' \<mapsto> ''object (1 keys)''))"
    by (simp add: analyze_json_structure.simps analyze_item.simps str_nat.simps)
  from entries_within_depth_limit[OF eq, of "''a.b''" "''object (1 keys)''"] eq
  show ?thesis by simp
qed

section \<open>Properties of the driver\<close>

lemma seq_nothing [simp]: "seq nothing b = b"
  by (simp add: seq_def nothing_def)

lemma seq_print [simp]: "seq (print enc s k) b = print enc s (seq k b)"
  by (simp add: seq_def print_def split: option.splits)

lemma seq_bind [simp]: "seq (bind r f) b = bind r (\<lambda>x. seq (f x) b)"
  by (cases r) (simp_all add: seq_def bind_def)

lemma seq_assoc: "seq (seq a b) c = seq a (seq b c)"
  by (simp add: seq_def split: option.splits)

lemma seq_completes: "completes a \<Longrightarrow> seq a b = (fst a @ fst b, snd b)"
  by (simp add: seq_def completes_def)

text \<open>Evaluation of runs whose parts are known.\<close>

lemma print_pair: "enc s \<Longrightarrow> print enc s (out, r) = (s # out, r)"
  by (simp add: print_def)

lemma print_fails: "\<not> enc s \<Longrightarrow> print enc s k = ([], Some UnicodeEncodeError)"
  by (simp add: print_def)

lemma bind_Inr: "bind (Inr x) f = f x"
  by (simp add: bind_def)

lemma bind_Inl: "bind (Inl e) f = ([], Some e)"
  by (simp add: bind_def)

lemma seq_pair: "seq (out, None) (out', r) = (out @ out', r)" "seq (out, Some e) b = (out, Some e)"
  by (simp_all add: seq_def)

lemmas run_simps = print_pair print_fails bind_Inr bind_Inl seq_pair nothing_def
  print_field_def print_len_def print_properties_def utf8_def

lemma main_loop_append:
  "main_loop g enc rs dir (pre @ post)
     = seq (main_loop g enc rs dir pre) (main_loop g enc rs dir post)"
proof (induction pre)
  case Nil
  then show ?case by simp
next
  case (Cons e pre)
  obtain name filename where e: "e = (name, filename)" by (cases e)
  show ?case
    by (cases "dir filename") (simp_all add: e Cons.IH seq_assoc)
qed

text \<open>
  Claim C7, as amended. For an entry of the fixed list whose file is missing, the run of
  the driver is the run over the entries before it, followed, if none of them ended in
  an exception, by the line \<^verbatim>\<open>File not found: \<close> with the file name and by the run over
  the entries after it; nothing is parsed or summarized for the entry. So when the
  driver reaches the entry and standard output can encode the line, the line is
  printed after the output of the earlier entries and the remaining entries are all
  processed.
\<close>

theorem missing_file_reported_and_skipped:
  assumes "files = pre @ (name, filename) # post" and "dir filename = None"
  shows "main enc rs dir =
       seq (main_loop this_module enc rs dir pre)
           (print enc (''File not found: '' @ filename) (main_loop this_module enc rs dir post))
     \<and> (completes (main_loop this_module enc rs dir pre)
          \<and> enc (''File not found: '' @ filename) \<longrightarrow>
        main enc rs dir =
          (fst (main_loop this_module enc rs dir pre)
             @ (''File not found: '' @ filename) # fst (main_loop this_module enc rs dir post),
           snd (main_loop this_module enc rs dir post)))"
proof -
  have eq: "main enc rs dir =
       seq (main_loop this_module enc rs dir pre)
           (print enc (''File not found: '' @ filename) (main_loop this_module enc rs dir post))"
    unfolding main_def main_in_def assms(1) main_loop_append
    using assms(2) by simp
  then show ?thesis
    by (simp add: seq_completes print_def)
qed

theorem missing_file_reported_and_skipped_witness:
  "main utf8 quoted no_files =
     ([''File not found: example_stop_finder_1_epp.json'',
       ''File not found: example_departure_mon_1_central.json'',
       ''File not found: example_departure_mon_2_circular_quay.json'',
       ''File not found: example_trip_1.json'',
       ''File not found: example_trip_2.json'',
       ''File not found: example_add_info_1_all_modes.json'',
       ''File not found: example_add_info_2_only_trains.json'',
       ''File not found: example_coord_1_gis_point.json'',
       ''File not found: example_coord_2_bus_point.json'',
       ''File not found: example_coord_3_poi_point.json''], None)"
  using missing_file_reported_and_skipped [of "[]" "''stop_finder''"
      "''example_stop_finder_1_epp.json''" "tl files" no_files utf8 quoted]
  by (simp add: files_def no_files_def run_simps completes_def)

text \<open>
  The claim as first stated fails: when the first file is not valid JSON the driver
  ends in the exception of the parser, and the second entry, whose file is missing,
  gets no \<^verbatim>\<open>File not found\<close> line.
\<close>

theorem missing_file_counterexample:
  "first_file_malformed ''example_departure_mon_1_central.json'' = None
   \<and> main utf8 quoted first_file_malformed =
       ([CHR 0x0A # replicate 60 (CHR ''=''),
         ''ANALYZING: example_stop_finder_1_epp.json'',
         replicate 60 (CHR ''='')], Some JSONDecodeError)"
  by (simp add: main_def main_in_def files_def first_file_malformed_def run_simps)

text \<open>
  Claim C8. For an entry of the fixed list whose file exists and parses, the driver,
  after the header lines and the size line, runs exactly one summarizer on the parsed
  document and then goes on with the remaining entries: the summarizer of the first
  category, in the order \<^verbatim>\<open>stop_finder\<close>, \<^verbatim>\<open>departure_mon\<close>, \<^verbatim>\<open>trip\<close>, \<^verbatim>\<open>add_info\<close>,
  \<^verbatim>\<open>coord\<close>, that occurs as a substring of the logical name. In general the
  \<^verbatim>\<open>if\<close>/\<^verbatim>\<open>elif\<close> chain runs the summarizer of the first category that occurs in the name
  and nothing when none occurs; the first categories of the ten names are as listed.
\<close>

theorem driver_dispatches_first_match:
  "(files = pre @ (name, filename) # post \<and> dir filename = Some f
      \<and> load f = Inr data \<and> getsize f = Inr n \<longrightarrow>
      (\<exists>c. first_category name = Some c
        \<and> main enc rs dir =
            seq (main_loop this_module enc rs dir pre)
             (print enc (CHR 0x0A # replicate 60 (CHR ''=''))
             (print enc (''ANALYZING: '' @ filename)
             (print enc (replicate 60 (CHR ''=''))
             (print enc (''File size: '' @ format_kb n @ '' KB'')
             (seq (summarizer_of this_module c enc rs data)
                  (main_loop this_module enc rs dir post))))))))
   \<and> dispatch g enc rs name data =
       (case first_category name of
          None \<Rightarrow> nothing
        | Some c \<Rightarrow> summarizer_of g c enc rs data)
   \<and> map (\<lambda>e. first_category (fst e)) files =
       [Some ''stop_finder'', Some ''departure_mon'', Some ''departure_mon'',
        Some ''trip'', Some ''trip'', Some ''add_info'', Some ''add_info'',
        Some ''coord'', Some ''coord'', Some ''coord'']
   \<and> map (summarizer_of this_module) categories =
       [summarize_stop_finder, summarize_departure_mon, summarize_trip,
        summarize_add_info, summarize_coord]"
proof -
  have disp: "dispatch g enc rs name data =
       (case first_category name of
          None \<Rightarrow> nothing
        | Some c \<Rightarrow> summarizer_of g c enc rs data)" for g name
    by (simp add: dispatch_def first_category_def categories_def summarizer_of_def)
  have cats: "map (\<lambda>e. first_category (fst e)) files =
       [Some ''stop_finder'', Some ''departure_mon'', Some ''departure_mon'',
        Some ''trip'', Some ''trip'', Some ''add_info'', Some ''add_info'',
        Some ''coord'', Some ''coord'', Some ''coord'']"
    by (simp add: first_category_def categories_def files_def)
  have known: "\<exists>c. first_category name = Some c" if "(name, filename) \<in> set files"
  proof -
    from that have "first_category name \<in> set (map (\<lambda>e. first_category (fst e)) files)"
      by force
    then show ?thesis unfolding cats by auto
  qed
  have run: "\<exists>c. first_category name = Some c
        \<and> main enc rs dir =
            seq (main_loop this_module enc rs dir pre)
             (print enc (CHR 0x0A # replicate 60 (CHR ''=''))
             (print enc (''ANALYZING: '' @ filename)
             (print enc (replicate 60 (CHR ''=''))
             (print enc (''File size: '' @ format_kb n @ '' KB'')
             (seq (summarizer_of this_module c enc rs data)
                  (main_loop this_module enc rs dir post))))))"
    if f: "files = pre @ (name, filename) # post" and d: "dir filename = Some f"
      and l: "load f = Inr data" and s: "getsize f = Inr n"
  proof -
    have "(name, filename) \<in> set files" by (subst f) simp
    from known[OF this] obtain c where c: "first_category name = Some c" by blast
    have "main enc rs dir =
        seq (main_loop this_module enc rs dir pre)
            (main_loop this_module enc rs dir ((name, filename) # post))"
      unfolding main_def main_in_def f main_loop_append ..
    then show ?thesis
      using c d l s by (simp add: bind_Inr disp)
  qed
  have mods: "map (summarizer_of this_module) categories =
       [summarize_stop_finder, summarize_departure_mon, summarize_trip,
        summarize_add_info, summarize_coord]"
    by (simp add: summarizer_of_def categories_def this_module_def)
  from run disp cats mods show ?thesis by blast
qed

theorem driver_dispatches_first_match_witness:
  "main utf8 quoted only_last_file =
     ([''File not found: example_stop_finder_1_epp.json'',
       ''File not found: example_departure_mon_1_central.json'',
       ''File not found: example_departure_mon_2_circular_quay.json'',
       ''File not found: example_trip_1.json'',
       ''File not found: example_trip_2.json'',
       ''File not found: example_add_info_1_all_modes.json'',
       ''File not found: example_add_info_2_only_trains.json'',
       ''File not found: example_coord_1_gis_point.json'',
       ''File not found: example_coord_2_bus_point.json'',
       CHR 0x0A # replicate 60 (CHR ''=''),
       ''ANALYZING: example_coord_3_poi_point.json'',
       replicate 60 (CHR ''=''),
       ''File size: 0.8 KB'',
       CHR 0x0A # ''=== COORD (NEARBY) RESPONSE ==='',
       ''Version: None'',
       ''Locations count: 0''], None)"
  using driver_dispatches_first_match [of "butlast files" "''coord_poi''"
      "''example_coord_3_poi_point.json''" "[]" only_last_file
      "\<lparr>load = Inr (JObj []), getsize = Inr 768\<rparr>" "JObj []" 768 utf8 quoted]
  by (simp add: files_def only_last_file_def first_category_def categories_def
      summarizer_of_def this_module_def summarize_coord_def format_kb_def str_nat.simps
      run_simps)

text \<open>
  Claim C9. The driver never calls the generic structure analyzer: whatever is bound to
  the name \<^verbatim>\<open>analyze_json_structure\<close> in the module, the run of \<^verbatim>\<open>main\<close> (what it prints
  and how it ends) is that of the script as written.
\<close>

lemma dispatch_ignores_analyzer:
  "dispatch (g\<lparr>m_analyze_json_structure := a\<rparr>) enc rs name data = dispatch g enc rs name data"
  by (simp add: dispatch_def cong: if_cong)

lemma main_loop_ignores_analyzer:
  "main_loop (g\<lparr>m_analyze_json_structure := a\<rparr>) enc rs dir entries
     = main_loop g enc rs dir entries"
proof (induction entries)
  case Nil
  then show ?case by simp
next
  case (Cons e entries)
  obtain name filename where e: "e = (name, filename)" by (cases e)
  show ?case
    by (cases "dir filename") (simp_all add: e Cons.IH dispatch_ignores_analyzer)
qed

theorem main_independent_of_analyzer:
  "main_in (this_module\<lparr>m_analyze_json_structure := a\<rparr>) enc rs dir = main enc rs dir"
  by (simp add: main_def main_in_def main_loop_ignores_analyzer)

section \<open>The summarizers on documents of the expected shape\<close>

subsection \<open>Shapes\<close>









subsection \<open>What each statement form prints\<close>
















subsection \<open>The five summarizers print their reports\<close>










end
